theory Spec2Isabelle
  imports Complex_Main "HOL-Library.Multiset"
begin

section \<open>JavaScript numbers and strings\<close>

text \<open>
  A JavaScript \<open>number\<close> is modelled by its value: an exact rational, or one of the three
  special values. The special values follow IEEE 754 (a division never raises; it yields
  \<open>Infinity\<close>, \<open>-Infinity\<close> or \<open>NaN\<close>); on finite values the arithmetic is exact, so rounding
  to 53 bits is outside the model. Zero is unsigned: the only divisors of the program are the
  constant 1000 and differences \<open>a - b\<close>, which are \<open>+0\<close> when they vanish. What is stated
  below of sums, products and quotients is either structural (which operands are combined, in
  which order) or the value at an input on which the doubles are exact; no bound is derived
  from the exact arithmetic.
\<close>

datatype number = Fin rat | Infinity | NegInfinity | NaN

datatype error = RangeError | TypeError

fun num_neg :: "number \<Rightarrow> number" where
  "num_neg (Fin a) = Fin (- a)"
| "num_neg Infinity = NegInfinity"
| "num_neg NegInfinity = Infinity"
| "num_neg NaN = NaN"

fun num_add :: "number \<Rightarrow> number \<Rightarrow> number" where
  "num_add (Fin a) (Fin b) = Fin (a + b)"
| "num_add (Fin a) Infinity = Infinity"
| "num_add (Fin a) NegInfinity = NegInfinity"
| "num_add Infinity (Fin b) = Infinity"
| "num_add Infinity Infinity = Infinity"
| "num_add Infinity NegInfinity = NaN"
| "num_add NegInfinity (Fin b) = NegInfinity"
| "num_add NegInfinity Infinity = NaN"
| "num_add NegInfinity NegInfinity = NegInfinity"
| "num_add NaN y = NaN"
| "num_add x NaN = NaN"

definition num_sub :: "number \<Rightarrow> number \<Rightarrow> number" where
  "num_sub x y = num_add x (num_neg y)"

fun num_mul :: "number \<Rightarrow> number \<Rightarrow> number" where
  "num_mul (Fin a) (Fin b) = Fin (a * b)"
| "num_mul (Fin a) Infinity = (if a = 0 then NaN else if 0 < a then Infinity else NegInfinity)"
| "num_mul (Fin a) NegInfinity = (if a = 0 then NaN else if 0 < a then NegInfinity else Infinity)"
| "num_mul Infinity (Fin b) = (if b = 0 then NaN else if 0 < b then Infinity else NegInfinity)"
| "num_mul NegInfinity (Fin b) = (if b = 0 then NaN else if 0 < b then NegInfinity else Infinity)"
| "num_mul Infinity Infinity = Infinity"
| "num_mul Infinity NegInfinity = NegInfinity"
| "num_mul NegInfinity Infinity = NegInfinity"
| "num_mul NegInfinity NegInfinity = Infinity"
| "num_mul NaN y = NaN"
| "num_mul x NaN = NaN"

fun num_div :: "number \<Rightarrow> number \<Rightarrow> number" where
  "num_div (Fin a) (Fin b) =
     (if b = 0 then (if a = 0 then NaN else if 0 < a then Infinity else NegInfinity)
      else Fin (a / b))"
| "num_div (Fin a) Infinity = Fin 0"
| "num_div (Fin a) NegInfinity = Fin 0"
| "num_div Infinity (Fin b) = (if b < 0 then NegInfinity else Infinity)"
| "num_div NegInfinity (Fin b) = (if b < 0 then Infinity else NegInfinity)"
| "num_div Infinity Infinity = NaN"
| "num_div Infinity NegInfinity = NaN"
| "num_div NegInfinity Infinity = NaN"
| "num_div NegInfinity NegInfinity = NaN"
| "num_div NaN y = NaN"
| "num_div x NaN = NaN"

fun Math_floor :: "number \<Rightarrow> number" where
  "Math_floor (Fin a) = Fin (of_int \<lfloor>a\<rfloor>)"
| "Math_floor x = x"

text \<open>The comparison operators: every comparison with \<open>NaN\<close> is false.\<close>

fun num_lt :: "number \<Rightarrow> number \<Rightarrow> bool" where
  "num_lt (Fin a) (Fin b) = (a < b)"
| "num_lt (Fin a) Infinity = True"
| "num_lt NegInfinity (Fin b) = True"
| "num_lt NegInfinity Infinity = True"
| "num_lt x y = False"

definition num_gt :: "number \<Rightarrow> number \<Rightarrow> bool" where
  "num_gt x y = num_lt y x"

definition num_le :: "number \<Rightarrow> number \<Rightarrow> bool" where
  "num_le x y = (num_lt x y \<or> (x = y \<and> x \<noteq> NaN))"

text \<open>\<open>ToBoolean\<close> on a number: zero and \<open>NaN\<close> are falsy.\<close>

fun truthy :: "number \<Rightarrow> bool" where
  "truthy (Fin a) = (a \<noteq> 0)"
| "truthy NaN = False"
| "truthy x = True"

text \<open>
  \<open>String.prototype.repeat\<close>: the count goes through \<open>ToIntegerOrInfinity\<close> (\<open>NaN\<close> becomes 0,
  a fraction is truncated towards zero); a negative or infinite count throws a \<open>RangeError\<close>.
  The engine's limit on the length of a string is not modelled.
\<close>

definition ToIntegerOrInfinity :: "rat \<Rightarrow> int" where
  "ToIntegerOrInfinity a = (if 0 \<le> a then \<lfloor>a\<rfloor> else \<lceil>a\<rceil>)"

fun str_repeat :: "string \<Rightarrow> number \<Rightarrow> error + string" where
  "str_repeat s NaN = Inr []"
| "str_repeat s Infinity = Inl RangeError"
| "str_repeat s NegInfinity = Inl RangeError"
| "str_repeat s (Fin a) =
     (if ToIntegerOrInfinity a < 0 then Inl RangeError
      else Inr (concat (replicate (nat (ToIntegerOrInfinity a)) s)))"

text \<open>\<open>String.prototype.padStart\<close> with the default filler, a space.\<close>

definition padStart :: "int \<Rightarrow> string \<Rightarrow> string" where
  "padStart n s = replicate (nat (n - int (length s))) (CHR '' '') @ s"

text \<open>Decimal digits of a natural number, as a template literal prints an integer.\<close>

function string_of_nat :: "nat \<Rightarrow> string" where
  "string_of_nat n =
     (if n < 10 then [''0123456789'' ! n]
      else string_of_nat (n div 10) @ [''0123456789'' ! (n mod 10)])"
  by pat_completeness auto
termination
  by (relation "measure id") auto

declare string_of_nat.simps [simp del]

text \<open>
  \<open>Number.prototype.toFixed(1)\<close>: the magnitude is rounded to the nearest tenth, a tie going
  up; the sign is kept for negative values. Above \<open>10^21\<close> the built-in switches to exponent
  notation, which is outside the model (no statement below depends on the digits there).
\<close>

fun toFixed1 :: "number \<Rightarrow> string" where
  "toFixed1 NaN = ''NaN''"
| "toFixed1 Infinity = ''Infinity''"
| "toFixed1 NegInfinity = ''-Infinity''"
| "toFixed1 (Fin a) =
     (if a < 0 then ''-'' else '''') @
     string_of_nat (nat \<lfloor>\<bar>a\<bar> * 10 + 1 / 2\<rfloor> div 10) @ ''.'' @
     string_of_nat (nat \<lfloor>\<bar>a\<bar> * 10 + 1 / 2\<rfloor> mod 10)"

section \<open>Terminal text\<close>

text \<open>
  The \<open>colors\<close> package wraps a string in the escape codes of one colour. A line of output is
  modelled as its glyphs, each a character with the colour it is shown in (\<open>None\<close> for text
  that no colour function was applied to).
\<close>

datatype color = Yellow | Green | Red | Gray | Cyan | White

type_synonym styled = "(color option \<times> char) list"

definition colorize :: "color \<Rightarrow> string \<Rightarrow> styled" where
  "colorize c s = map (Pair (Some c)) s"

definition plain :: "string \<Rightarrow> styled" where
  "plain s = map (Pair None) s"

section \<open>The data model of the timeline plugin\<close>

text \<open>
  The enumeration \<open>OperationStatus\<close> and the interfaces of operations, runners, phases and
  results are declared outside the sources at hand. The enumeration has the nine members that
  the two tables of the plugin list; each record has the fields that \<open>_printTimeline\<close> reads,
  with \<open>None\<close> for \<open>undefined\<close>.
\<close>

datatype OperationStatus =
  Ready | Executing | Success | SuccessWithWarning | Failure | Blocked | Skipped | FromCache | NoOp

text \<open>
  A phase is an object: a \<open>Map\<close> keyed by phases compares them by identity, which \<open>phase_ref\<close>
  stands for.
\<close>

record IPhase =
  phase_ref :: nat
  phase_name :: string

record IOperationRunner =
  silent :: bool

record Operation =
  op_name :: "string option"
  runner :: "IOperationRunner option"
  associatedPhase :: "IPhase option"

record Stopwatch =
  sw_startTime :: "number option"
  sw_endTime :: "number option"

record IOperationExecutionResult =
  result_status :: OperationStatus
  stopwatch :: Stopwatch

text \<open>\<open>operationResults\<close> is a \<open>Map\<close>, iterated in insertion order.\<close>

record IExecutionResult =
  operationResults :: "(Operation \<times> IOperationExecutionResult) list"

record ITimelineRecord =
  startTime :: number
  endTime :: number
  durationString :: string
  name :: "string option"
  status :: OperationStatus

text \<open>
  Modelled from the spec: the class \<open>Stopwatch\<close> is not among the sources. Its \<open>duration\<close> is
  derived from the two timestamps, \<open>endTime - startTime\<close>, in seconds, the timestamps being
  milliseconds (\<open>_printTimeline\<close> divides \<open>allDuration\<close> by 1000 to bring it to the unit of the
  durations). The program reads it only when both timestamps are set.
\<close>

definition duration :: "Stopwatch \<Rightarrow> number" where
  "duration sw =
     (case (sw_startTime sw, sw_endTime sw) of
        (Some s, Some e) \<Rightarrow> num_div (num_sub e s) (Fin 1000)
      | _ \<Rightarrow> Fin 0)"

definition TIMELINE_WIDTH :: nat where
  "TIMELINE_WIDTH = 109"

fun TIMELINE_CHART_SYMBOLS :: "OperationStatus \<Rightarrow> string" where
  "TIMELINE_CHART_SYMBOLS Ready = ''?''"
| "TIMELINE_CHART_SYMBOLS Executing = ''?''"
| "TIMELINE_CHART_SYMBOLS Success = ''#''"
| "TIMELINE_CHART_SYMBOLS SuccessWithWarning = ''!''"
| "TIMELINE_CHART_SYMBOLS Failure = ''!''"
| "TIMELINE_CHART_SYMBOLS Blocked = ''.''"
| "TIMELINE_CHART_SYMBOLS Skipped = ''%''"
| "TIMELINE_CHART_SYMBOLS FromCache = ''%''"
| "TIMELINE_CHART_SYMBOLS NoOp = ''%''"

fun TIMELINE_CHART_COLORIZER :: "OperationStatus \<Rightarrow> string \<Rightarrow> styled" where
  "TIMELINE_CHART_COLORIZER Ready = colorize Yellow"
| "TIMELINE_CHART_COLORIZER Executing = colorize Yellow"
| "TIMELINE_CHART_COLORIZER Success = colorize Green"
| "TIMELINE_CHART_COLORIZER SuccessWithWarning = colorize Yellow"
| "TIMELINE_CHART_COLORIZER Failure = colorize Red"
| "TIMELINE_CHART_COLORIZER Blocked = colorize Red"
| "TIMELINE_CHART_COLORIZER Skipped = colorize Green"
| "TIMELINE_CHART_COLORIZER FromCache = colorize Green"
| "TIMELINE_CHART_COLORIZER NoOp = colorize Gray"

section \<open>Gathering the records\<close>

text \<open>A \<open>Map\<close> as an association list in insertion order: \<open>set\<close> keeps the place of a key.\<close>

fun map_set :: "'k \<Rightarrow> 'v \<Rightarrow> ('k \<times> 'v) list \<Rightarrow> ('k \<times> 'v) list" where
  "map_set k v [] = [(k, v)]"
| "map_set k v ((k', v') # m) = (if k' = k then (k, v) # m else (k', v') # map_set k v m)"

record Gathered =
  durationByPhase :: "(IPhase \<times> number) list"
  data :: "ITimelineRecord list"
  longestNameLength :: nat
  longestDurationLength :: nat
  allStart :: number
  allEnd :: number
  workDuration :: number

definition gather_init :: Gathered where
  "gather_init =
     \<lparr>durationByPhase = [], data = [], longestNameLength = 0, longestDurationLength = 0,
      allStart = Infinity, allEnd = NegInfinity, workDuration = Fin 0\<rparr>"

text \<open>\<open>operation.runner?.silent\<close>\<close>

definition runner_silent :: "Operation \<Rightarrow> bool" where
  "runner_silent operation = (case runner operation of None \<Rightarrow> False | Some r \<Rightarrow> silent r)"

text \<open>\<open>startTime && endTime\<close> on two values of type \<open>number | undefined\<close>\<close>

definition timestamps :: "Stopwatch \<Rightarrow> (number \<times> number) option" where
  "timestamps sw =
     (case (sw_startTime sw, sw_endTime sw) of
        (Some s, Some e) \<Rightarrow> if truthy s \<and> truthy e then Some (s, e) else None
      | _ \<Rightarrow> None)"

text \<open>The body of the loop over \<open>result.operationResults\<close> (lines 125 to 169).\<close>

definition gather_step ::
  "Gathered \<Rightarrow> Operation \<times> IOperationExecutionResult \<Rightarrow> Gathered" where
  "gather_step g entry =
     (case entry of (operation, operationResult) \<Rightarrow>
      if runner_silent operation then g
      else case timestamps (stopwatch operationResult) of
        None \<Rightarrow> g
      | Some (s, e) \<Rightarrow>
          let nameLength = (case op_name operation of None \<Rightarrow> 0 | Some n \<Rightarrow> length n);
              d = duration (stopwatch operationResult);
              durationLength = length (toFixed1 d)
          in g\<lparr>longestNameLength :=
                 (if nameLength > longestNameLength g then nameLength else longestNameLength g),
               longestDurationLength :=
                 (if durationLength > longestDurationLength g then durationLength
                  else longestDurationLength g),
               allEnd := (if num_gt e (allEnd g) then e else allEnd g),
               allStart := (if num_lt s (allStart g) then s else allStart g),
               workDuration := num_add (workDuration g) d,
               durationByPhase :=
                 (case associatedPhase operation of
                    None \<Rightarrow> durationByPhase g
                  | Some ph \<Rightarrow>
                      map_set ph
                        (num_add
                           (case map_of (durationByPhase g) ph of
                              None \<Rightarrow> Fin 0
                            | Some v \<Rightarrow> if truthy v then v else Fin 0)
                           d)
                        (durationByPhase g)),
               data := data g @
                 [\<lparr>startTime = s, endTime = e, durationString = toFixed1 d,
                   name = op_name operation, status = result_status operationResult\<rparr>]\<rparr>)"

definition gather :: "(Operation \<times> IOperationExecutionResult) list \<Rightarrow> Gathered" where
  "gather entries = foldl gather_step gather_init entries"

section \<open>Sorting the records\<close>

text \<open>
  \<open>data.sort((a, b) => a.startTime - b.startTime)\<close>. \<open>Array.prototype.sort\<close> is stable; it
  reads a comparator result that is \<open>NaN\<close> as 0. The model is the stable insertion sort under
  this comparator (the order the built-in yields whenever the comparator is consistent, as it
  is on finite start times).
\<close>

definition compareFn :: "ITimelineRecord \<Rightarrow> ITimelineRecord \<Rightarrow> number" where
  "compareFn a b = num_sub (startTime a) (startTime b)"

fun insert_record :: "ITimelineRecord \<Rightarrow> ITimelineRecord list \<Rightarrow> ITimelineRecord list" where
  "insert_record r [] = [r]"
| "insert_record r (x # xs) =
     (if num_gt (compareFn r x) (Fin 0) then x # insert_record r xs else r # x # xs)"

definition sort_data :: "ITimelineRecord list \<Rightarrow> ITimelineRecord list" where
  "sort_data rs = foldr insert_record rs []"

section \<open>The parallelism reconstruction\<close>

text \<open>The loop of \<open>getOpenCPU\<close> (lines 192 to 200), from index \<open>i\<close> on.\<close>

function getOpenCPU_from :: "number list \<Rightarrow> number \<Rightarrow> nat \<Rightarrow> nat" where
  "getOpenCPU_from busyCpus time i =
     (if i < length busyCpus
      then (if num_le (busyCpus ! i) time then i else getOpenCPU_from busyCpus time (i + 1))
      else length busyCpus)"
  by pat_completeness auto
termination
  by (relation "measure (\<lambda>(busyCpus, time, i). length busyCpus - i)") auto

declare getOpenCPU_from.simps [simp del]

definition getOpenCPU :: "number list \<Rightarrow> number \<Rightarrow> nat" where
  "getOpenCPU busyCpus time = getOpenCPU_from busyCpus time 0"

text \<open>
  \<open>busyCpus[openCpu] = endTime\<close>: a store at the index \<open>length\<close> appends. (\<open>getOpenCPU\<close> never
  returns a larger index, so the array never gets a hole.)
\<close>

definition array_store :: "'a list \<Rightarrow> nat \<Rightarrow> 'a \<Rightarrow> 'a list" where
  "array_store xs i v = (if i < length xs then xs[i := v] else xs @ [v])"

definition track_cpu :: "number list \<Rightarrow> ITimelineRecord \<Rightarrow> number list" where
  "track_cpu busyCpus r = array_store busyCpus (getOpenCPU busyCpus (startTime r)) (endTime r)"

section \<open>The chart\<close>

text \<open>The column of a time: the expression of \<open>startIdx\<close> and of \<open>endIdx\<close> (lines 212, 213).\<close>

definition chart_idx :: "number \<Rightarrow> number \<Rightarrow> int \<Rightarrow> number \<Rightarrow> number" where
  "chart_idx allStart' allDuration' chartWidth' time =
     Math_floor
       (num_div (num_mul (num_sub time allStart') (Fin (of_int chartWidth'))) allDuration')"

text \<open>
  The constant \<open>chart\<close> of a row (lines 212 to 219); the three calls of \<open>repeat\<close> run from left
  to right, and the first that throws ends the rendering.
\<close>

definition timeline_chart ::
  "number \<Rightarrow> number \<Rightarrow> int \<Rightarrow> ITimelineRecord \<Rightarrow> error + styled" where
  "timeline_chart allStart' allDuration' chartWidth' r =
     (let startIdx = chart_idx allStart' allDuration' chartWidth' (startTime r);
          endIdx = chart_idx allStart' allDuration' chartWidth' (endTime r);
          len = num_add (num_sub endIdx startIdx) (Fin 1)
      in case str_repeat ''-'' startIdx of
           Inl err \<Rightarrow> Inl err
         | Inr lead \<Rightarrow>
             (case str_repeat (TIMELINE_CHART_SYMBOLS (status r)) len of
                Inl err \<Rightarrow> Inl err
              | Inr bar \<Rightarrow>
                  (case str_repeat ''-'' (num_sub (Fin (of_int chartWidth')) endIdx) of
                     Inl err \<Rightarrow> Inl err
                   | Inr trail \<Rightarrow>
                       Inr (colorize Gray lead @ TIMELINE_CHART_COLORIZER (status r) bar @
                            colorize Gray trail))))"

text \<open>
  The line of a row (lines 220 to 224). \<open>name\<close> is \<open>operation.name!\<close>: where the operation has
  no name, \<open>name.padStart\<close> throws a \<open>TypeError\<close>.
\<close>

definition timeline_row ::
  "number \<Rightarrow> number \<Rightarrow> int \<Rightarrow> nat \<Rightarrow> nat \<Rightarrow> ITimelineRecord \<Rightarrow> error + styled" where
  "timeline_row allStart' allDuration' chartWidth' longestName longestDuration r =
     (case timeline_chart allStart' allDuration' chartWidth' r of
        Inl err \<Rightarrow> Inl err
      | Inr chart \<Rightarrow>
          (case name r of
             None \<Rightarrow> Inl TypeError
           | Some n \<Rightarrow>
               Inr (colorize Cyan (padStart (int longestName) n) @ plain '' '' @ chart @
                    plain '' '' @
                    colorize White (padStart (int longestDuration) (durationString r) @ ''s''))))"

text \<open>
  The loop over \<open>data\<close> (lines 206 to 225): the state is \<open>busyCpus\<close> and the lines written so
  far. A row that throws ends \<open>_printTimeline\<close>; the lines written before it are not kept in
  the model.
\<close>

fun timeline_loop ::
  "number \<Rightarrow> number \<Rightarrow> int \<Rightarrow> nat \<Rightarrow> nat \<Rightarrow> number list \<Rightarrow> styled list \<Rightarrow>
   ITimelineRecord list \<Rightarrow> error + (number list \<times> styled list)" where
  "timeline_loop a d w nl dl busyCpus out [] = Inr (busyCpus, out)"
| "timeline_loop a d w nl dl busyCpus out (r # rs) =
     (case timeline_row a d w nl dl r of
        Inl err \<Rightarrow> Inl err
      | Inr line \<Rightarrow> timeline_loop a d w nl dl (track_cpu busyCpus r) (out @ [line]) rs)"

section \<open>The summary and the phases\<close>

definition allDuration :: "Gathered \<Rightarrow> number" where
  "allDuration g = num_sub (allEnd g) (allStart g)"

definition allDurationSeconds :: "Gathered \<Rightarrow> number" where
  "allDurationSeconds g = num_div (allDuration g) (Fin 1000)"

text \<open>\<open>PrintUtilities.getConsoleWidth() || TIMELINE_WIDTH\<close>, the width being \<open>number | undefined\<close>.\<close>

definition maxWidth :: "nat option \<Rightarrow> nat" where
  "maxWidth consoleWidth =
     (case consoleWidth of
        None \<Rightarrow> TIMELINE_WIDTH
      | Some w \<Rightarrow> if w = 0 then TIMELINE_WIDTH else w)"

definition chartWidth :: "nat option \<Rightarrow> Gathered \<Rightarrow> int" where
  "chartWidth consoleWidth g =
     int (maxWidth consoleWidth) - int (longestNameLength g) - int (longestDurationLength g) - 4"

definition legend :: "string list" where
  "legend = [''LEGEND:'', ''  [#] Success  [!] Failed/warnings  [%] Skipped/cached/no-op'']"

definition summary :: "Gathered \<Rightarrow> string list" where
  "summary g =
     [''Total Work: '' @ toFixed1 (workDuration g) @ ''s'',
      ''Wall Clock: '' @ toFixed1 (allDurationSeconds g) @ ''s'']"

definition avgParallelism :: "Gathered \<Rightarrow> number" where
  "avgParallelism g = num_div (workDuration g) (allDurationSeconds g)"

text \<open>The four lines of the legend and the summary (lines 242 to 247).\<close>

definition summary_lines :: "nat \<Rightarrow> Gathered \<Rightarrow> nat \<Rightarrow> styled list" where
  "summary_lines width g usedCpus =
     [plain (legend ! 0 @ padStart (int width - int (length (legend ! 0))) (summary g ! 0)),
      plain (legend ! 1 @ padStart (int width - int (length (legend ! 1))) (summary g ! 1)),
      plain (padStart (int width) (''Max Parallelism Used: '' @ string_of_nat usedCpus)),
      plain (padStart (int width) (''Avg Parallelism Used: '' @ toFixed1 (avgParallelism g)))]"

text \<open>The section of the phases (lines 253 to 267): nothing when the map is empty.\<close>

definition maxPhaseName :: "(IPhase \<times> number) list \<Rightarrow> nat" where
  "maxPhaseName m =
     foldl (\<lambda>mx ph. if length (phase_name ph) > mx then length (phase_name ph) else mx) 16
       (map fst m)"

definition phase_lines :: "(IPhase \<times> number) list \<Rightarrow> styled list" where
  "phase_lines m =
     (if length m > 0
      then plain ''BY PHASE:'' #
           map (\<lambda>(ph, d). plain ''  '' @
                  colorize Cyan (padStart (int (maxPhaseName m)) (phase_name ph)) @
                  plain '' '' @ plain (toFixed1 d @ ''s'')) m
      else [])"

section \<open>The report\<close>

text \<open>
  \<open>_printTimeline\<close>: the first argument is what \<open>PrintUtilities.getConsoleWidth()\<close> returns,
  the result is the lines written to the terminal, or the error thrown.
\<close>

definition printTimeline :: "nat option \<Rightarrow> IExecutionResult \<Rightarrow> error + styled list" where
  "printTimeline consoleWidth result =
     (let g = gather (operationResults result);
          sorted = sort_data (data g);
          width = maxWidth consoleWidth;
          out = [plain '''', plain (replicate width (CHR ''=''))]
      in case timeline_loop (allStart g) (allDuration g) (chartWidth consoleWidth g)
                (longestNameLength g) (longestDurationLength g) [] out sorted of
           Inl err \<Rightarrow> Inl err
         | Inr (busyCpus, out') \<Rightarrow>
             Inr (out' @ [plain (replicate width (CHR ''=''))] @
                  summary_lines width g (length busyCpus) @
                  phase_lines (durationByPhase g) @ [plain '''']))"

section \<open>The hook \<open>createOperations\<close>\<close>

text \<open>
  Modelled from the spec: the class \<open>AsyncSeriesWaterfallHook\<close>, which \<open>PhasedCommandHooks\<close>
  instantiates for \<open>createOperations\<close> with the arguments \<open>operations\<close> and \<open>context\<close>, belongs to
  the package \<open>tapable\<close>; its registration and its dispatch are not among the sources. The
  spec gives an ordered list of registered handlers and, for a waterfall, a sequential
  await-and-replace loop: each handler receives the operation set accumulated so far and the
  context, and returns a set; a handler that fails ends the dispatch, and its failure goes to
  the caller. The model records every call, to state the order of the calls.
\<close>

type_synonym ('o, 'c, 'e) handler = "'o \<Rightarrow> 'c \<Rightarrow> 'e + 'o"

record ('o, 'c, 'e) Tap =
  tap_name :: string
  tap_fn :: "('o, 'c, 'e) handler"

record ('o, 'c) Call =
  call_name :: string
  call_operations :: 'o
  call_context :: 'c

definition tapPromise ::
  "string \<Rightarrow> ('o, 'c, 'e) handler \<Rightarrow> ('o, 'c, 'e) Tap list \<Rightarrow> ('o, 'c, 'e) Tap list" where
  "tapPromise n f taps = taps @ [\<lparr>tap_name = n, tap_fn = f\<rparr>]"

text \<open>The hook after the registrations of a list of plugins, in their order.\<close>

definition registered :: "(string \<times> ('o, 'c, 'e) handler) list \<Rightarrow> ('o, 'c, 'e) Tap list" where
  "registered plugins = foldl (\<lambda>taps (n, f). tapPromise n f taps) [] plugins"

fun waterfall ::
  "('o, 'c, 'e) Tap list \<Rightarrow> 'o \<Rightarrow> 'c \<Rightarrow> ('o, 'c) Call list \<Rightarrow> ('o, 'c) Call list \<times> ('e + 'o)" where
  "waterfall [] operations context calls = (calls, Inr operations)"
| "waterfall (t # taps) operations context calls =
     (case tap_fn t operations context of
        Inl err \<Rightarrow>
          (calls @ [\<lparr>call_name = tap_name t, call_operations = operations,
                      call_context = context\<rparr>], Inl err)
      | Inr operations' \<Rightarrow>
          waterfall taps operations' context
            (calls @ [\<lparr>call_name = tap_name t, call_operations = operations,
                        call_context = context\<rparr>]))"

text \<open>\<open>hooks.createOperations.promise(operations, context)\<close>\<close>

definition createOperations_promise ::
  "('o, 'c, 'e) Tap list \<Rightarrow> 'o \<Rightarrow> 'c \<Rightarrow> ('o, 'c) Call list \<times> ('e + 'o)" where
  "createOperations_promise taps operations context = waterfall taps operations context []"

section \<open>Notions used to state the properties\<close>

text \<open>\<open>busyCpus\<close> after the loop over \<open>data\<close>, and \<open>usedCpus\<close>, its length.\<close>

definition busyCpus_of :: "ITimelineRecord list \<Rightarrow> number list" where
  "busyCpus_of rs = foldl track_cpu [] rs"

definition usedCpus :: "ITimelineRecord list \<Rightarrow> nat" where
  "usedCpus rs = length (busyCpus_of rs)"

definition sorted_by_start :: "ITimelineRecord list \<Rightarrow> bool" where
  "sorted_by_start rs = sorted_wrt (\<lambda>a b. num_le (startTime a) (startTime b)) rs"

text \<open>
  The number of records whose interval \<open>[startTime, endTime)\<close> holds the time \<open>t\<close>, and its
  maximum, found by a sweep over the start times (an interval that holds \<open>t\<close> holds the latest
  start time that is at most \<open>t\<close>).
\<close>

definition overlap_at :: "number \<Rightarrow> ITimelineRecord list \<Rightarrow> nat" where
  "overlap_at t rs = length (filter (\<lambda>r. num_le (startTime r) t \<and> num_lt t (endTime r)) rs)"

definition max_overlap :: "ITimelineRecord list \<Rightarrow> nat" where
  "max_overlap rs = foldr (\<lambda>r m. max (overlap_at (startTime r) rs) m) rs 0"

definition overlaps :: "ITimelineRecord \<Rightarrow> ITimelineRecord \<Rightarrow> bool" where
  "overlaps a b = (num_lt (startTime a) (endTime b) \<and> num_lt (startTime b) (endTime a))"

fun non_overlapping :: "ITimelineRecord list \<Rightarrow> bool" where
  "non_overlapping [] = True"
| "non_overlapping (r # rs) = (list_all (\<lambda>x. \<not> overlaps r x) rs \<and> non_overlapping rs)"

fun mutually_overlapping :: "ITimelineRecord list \<Rightarrow> bool" where
  "mutually_overlapping [] = True"
| "mutually_overlapping (r # rs) = (list_all (overlaps r) rs \<and> mutually_overlapping rs)"

text \<open>The entries of a list that lie after the time \<open>t\<close>.\<close>

definition later_than :: "number \<Rightarrow> number list \<Rightarrow> nat" where
  "later_than t xs = length (filter (num_lt t) xs)"

text \<open>
  The operations that pass the two tests of the loop, and the record each of them adds.
\<close>

definition eligible :: "Operation \<times> IOperationExecutionResult \<Rightarrow> bool" where
  "eligible entry = (\<not> runner_silent (fst entry) \<and> timestamps (stopwatch (snd entry)) \<noteq> None)"

definition start_of :: "Operation \<times> IOperationExecutionResult \<Rightarrow> number" where
  "start_of entry = (case sw_startTime (stopwatch (snd entry)) of Some s \<Rightarrow> s | None \<Rightarrow> NaN)"

definition end_of :: "Operation \<times> IOperationExecutionResult \<Rightarrow> number" where
  "end_of entry = (case sw_endTime (stopwatch (snd entry)) of Some e \<Rightarrow> e | None \<Rightarrow> NaN)"

definition duration_of :: "Operation \<times> IOperationExecutionResult \<Rightarrow> number" where
  "duration_of entry = duration (stopwatch (snd entry))"

definition name_length :: "Operation \<times> IOperationExecutionResult \<Rightarrow> nat" where
  "name_length entry = (case op_name (fst entry) of None \<Rightarrow> 0 | Some n \<Rightarrow> length n)"

definition record_of :: "Operation \<times> IOperationExecutionResult \<Rightarrow> ITimelineRecord" where
  "record_of entry =
     \<lparr>startTime = start_of entry, endTime = end_of entry,
      durationString = toFixed1 (duration_of entry), name = op_name (fst entry),
      status = result_status (snd entry)\<rparr>"

text \<open>
  The invariant of the data model, \<open>startTime \<le> endTime\<close>, and its strict form: the record
  takes time.
\<close>

definition well_timed :: "ITimelineRecord \<Rightarrow> bool" where
  "well_timed r = num_le (startTime r) (endTime r)"

definition takes_time :: "ITimelineRecord \<Rightarrow> bool" where
  "takes_time r = num_lt (startTime r) (endTime r)"

text \<open>
  The filter as claim C4 words it: an operation is left out when its runner is silent or its
  stopwatch lacks both timestamps.
\<close>

definition lacks_both_timestamps :: "Stopwatch \<Rightarrow> bool" where
  "lacks_both_timestamps sw = (sw_startTime sw = None \<and> sw_endTime sw = None)"

definition left_out_as_claimed :: "Operation \<times> IOperationExecutionResult \<Rightarrow> bool" where
  "left_out_as_claimed entry =
     (runner_silent (fst entry) \<or> lacks_both_timestamps (stopwatch (snd entry)))"

text \<open>A timestamp that is set and truthy.\<close>

definition has_timestamp :: "number option \<Rightarrow> bool" where
  "has_timestamp t = (case t of None \<Rightarrow> False | Some x \<Rightarrow> truthy x)"

definition is_finite :: "number \<Rightarrow> bool" where
  "is_finite x = (case x of Fin q \<Rightarrow> True | _ \<Rightarrow> False)"

definition finite_times :: "Operation \<times> IOperationExecutionResult \<Rightarrow> bool" where
  "finite_times entry = (is_finite (start_of entry) \<and> is_finite (end_of entry))"

definition in_phase :: "IPhase \<Rightarrow> Operation \<times> IOperationExecutionResult \<Rightarrow> bool" where
  "in_phase ph entry = (associatedPhase (fst entry) = Some ph)"

text \<open>The durations of the eligible operations of a phase, added in the order of the map.\<close>

definition phase_total :: "IPhase \<Rightarrow> (Operation \<times> IOperationExecutionResult) list \<Rightarrow> number" where
  "phase_total ph entries =
     foldl num_add (Fin 0) (map duration_of (filter (in_phase ph) (filter eligible entries)))"

text \<open>The value of a finite number.\<close>

definition value_of :: "number \<Rightarrow> rat" where
  "value_of x = (case x of Fin q \<Rightarrow> q | _ \<Rightarrow> 0)"

definition has_phase :: "Operation \<times> IOperationExecutionResult \<Rightarrow> bool" where
  "has_phase entry = (associatedPhase (fst entry) \<noteq> None)"

section \<open>Example inputs\<close>

definition timeline_record :: "rat \<Rightarrow> rat \<Rightarrow> ITimelineRecord" where
  "timeline_record s e =
     \<lparr>startTime = Fin s, endTime = Fin e, durationString = toFixed1 (Fin ((e - s) / 1000)),
      name = Some ''op'', status = Success\<rparr>"

definition zero_length_records :: "ITimelineRecord list" where
  "zero_length_records = [timeline_record 5 8, timeline_record 5 5]"

definition staggered_records :: "ITimelineRecord list" where
  "staggered_records = [timeline_record 1 4, timeline_record 2 6, timeline_record 5 7]"

definition sequential_records :: "ITimelineRecord list" where
  "sequential_records = [timeline_record 1 3, timeline_record 3 6]"

definition nested_records :: "ITimelineRecord list" where
  "nested_records = [timeline_record 1 10, timeline_record 2 9, timeline_record 3 8]"

definition named_operation :: "string \<Rightarrow> Operation" where
  "named_operation n =
     \<lparr>op_name = Some n, runner = Some \<lparr>silent = False\<rparr>, associatedPhase = None\<rparr>"

definition measured :: "OperationStatus \<Rightarrow> rat \<Rightarrow> rat \<Rightarrow> IOperationExecutionResult" where
  "measured st s e =
     \<lparr>result_status = st, stopwatch = \<lparr>sw_startTime = Some (Fin s), sw_endTime = Some (Fin e)\<rparr>\<rparr>"

definition never_started :: IOperationExecutionResult where
  "never_started =
     \<lparr>result_status = Blocked, stopwatch = \<lparr>sw_startTime = None, sw_endTime = None\<rparr>\<rparr>"

definition silent_operation :: Operation where
  "silent_operation =
     \<lparr>op_name = Some ''quiet'', runner = Some \<lparr>silent = True\<rparr>, associatedPhase = None\<rparr>"

text \<open>One operation with a name of 41 characters, to be shown on a terminal 40 columns wide.\<close>

definition narrow_entries :: "(Operation \<times> IOperationExecutionResult) list" where
  "narrow_entries =
     [(named_operation ''@rushstack/eslint-plugin-security (build)'', measured Success 1000 7800)]"

text \<open>A silent operation and one that never started: no operation is eligible.\<close>

definition no_eligible_entries :: "(Operation \<times> IOperationExecutionResult) list" where
  "no_eligible_entries =
     [(silent_operation, measured Success 1000 7800), (named_operation ''blocked'', never_started)]"

text \<open>Two operations of length zero at the same time.\<close>

definition simultaneous_entries :: "(Operation \<times> IOperationExecutionResult) list" where
  "simultaneous_entries =
     [(named_operation ''a'', measured FromCache 5 5), (named_operation ''b'', measured NoOp 5 5)]"

definition started_only :: IOperationExecutionResult where
  "started_only =
     \<lparr>result_status = Executing,
      stopwatch = \<lparr>sw_startTime = Some (Fin 1000), sw_endTime = None\<rparr>\<rparr>"

definition build_phase :: IPhase where
  "build_phase = \<lparr>phase_ref = 1, phase_name = ''_phase:build''\<rparr>"

definition test_phase :: IPhase where
  "test_phase = \<lparr>phase_ref = 2, phase_name = ''_phase:test''\<rparr>"

definition phased_operation :: "string \<Rightarrow> IPhase \<Rightarrow> Operation" where
  "phased_operation n ph =
     \<lparr>op_name = Some n, runner = Some \<lparr>silent = False\<rparr>, associatedPhase = Some ph\<rparr>"

text \<open>
  Three operations that ran (1 to 4 s, 4 to 11 s, 2 to 5 s), one without a phase, among a
  silent one, one that never started and one that has not ended.
\<close>

definition mixed_entries :: "(Operation \<times> IOperationExecutionResult) list" where
  "mixed_entries =
     [(phased_operation ''a (build)'' build_phase, measured Success 1000 4000),
      (silent_operation, measured Success 1000 7800),
      (phased_operation ''a (test)'' test_phase, measured Success 4000 11000),
      (named_operation ''blocked'', never_started),
      (named_operation ''c'', measured SuccessWithWarning 2000 5000),
      (phased_operation ''b (build)'' build_phase, measured FromCache 5000 5500),
      (named_operation ''running'', started_only)]"

text \<open>Two plugins that each add an operation.\<close>

definition adds_operation :: "nat \<Rightarrow> (nat list, bool, string) handler" where
  "adds_operation n operations context = Inr (operations @ [n])"

definition two_plugins :: "(string \<times> (nat list, bool, string) handler) list" where
  "two_plugins = [(''first'', adds_operation 1), (''second'', adds_operation 2)]"

section \<open>The order of the numbers\<close>

lemma num_le_trans: "num_le a b \<Longrightarrow> num_le b c \<Longrightarrow> num_le a c"
  by (cases a; cases b; cases c) (auto simp: num_le_def)

lemma num_le_not_lt: "num_le a b \<Longrightarrow> \<not> num_lt b a"
  by (cases a; cases b) (auto simp: num_le_def)

lemma num_lt_le_trans: "num_lt a b \<Longrightarrow> num_le b c \<Longrightarrow> num_lt a c"
  by (cases a; cases b; cases c) (auto simp: num_le_def)

lemma num_le_lt_trans: "num_le a b \<Longrightarrow> num_lt b c \<Longrightarrow> num_lt a c"
  by (cases a; cases b; cases c) (auto simp: num_le_def)

lemma num_lt_imp_le: "num_lt a b \<Longrightarrow> num_le a b"
  by (simp add: num_le_def)

lemma num_le_refl: "a \<noteq> NaN \<Longrightarrow> num_le a a"
  by (simp add: num_le_def)

lemma num_lt_not_NaN: "num_lt a b \<Longrightarrow> a \<noteq> NaN \<and> b \<noteq> NaN"
  by (cases a; cases b) auto

lemma num_le_not_NaN: "num_le a b \<Longrightarrow> a \<noteq> NaN \<and> b \<noteq> NaN"
  by (cases a; cases b) (auto simp: num_le_def)

lemma not_num_le: "a \<noteq> NaN \<Longrightarrow> b \<noteq> NaN \<Longrightarrow> \<not> num_le a b \<Longrightarrow> num_lt b a"
  by (cases a; cases b) (auto simp: num_le_def)

section \<open>The search for an open CPU\<close>

lemma getOpenCPU_from_le:
  "i \<le> length b \<Longrightarrow> getOpenCPU_from b t i \<le> length b"
proof (induction b t i rule: getOpenCPU_from.induct)
  case (1 b t i)
  then show ?case
    by (subst getOpenCPU_from.simps) auto
qed

lemma getOpenCPU_from_open:
  "getOpenCPU_from b t i < length b \<Longrightarrow> num_le (b ! getOpenCPU_from b t i) t"
proof (induction b t i rule: getOpenCPU_from.induct)
  case (1 b t i)
  show ?case
  proof (cases "i < length b")
    case True
    show ?thesis
    proof (cases "num_le (b ! i) t")
      case True
      with \<open>i < length b\<close> show ?thesis
        by (subst getOpenCPU_from.simps) simp
    next
      case False
      with \<open>i < length b\<close> have eq: "getOpenCPU_from b t i = getOpenCPU_from b t (i + 1)"
        by (subst getOpenCPU_from.simps) simp
      with "1.IH" [OF \<open>i < length b\<close> False] "1.prems" show ?thesis
        by simp
    qed
  next
    case False
    then have "getOpenCPU_from b t i = length b"
      by (subst getOpenCPU_from.simps) simp
    with "1.prems" show ?thesis by simp
  qed
qed

lemma getOpenCPU_from_lowest:
  "i \<le> j \<Longrightarrow> j < getOpenCPU_from b t i \<Longrightarrow> \<not> num_le (b ! j) t"
proof (induction b t i rule: getOpenCPU_from.induct)
  case (1 b t i)
  show ?case
  proof (cases "i < length b \<and> \<not> num_le (b ! i) t")
    case True
    then have eq: "getOpenCPU_from b t i = getOpenCPU_from b t (i + 1)"
      by (subst getOpenCPU_from.simps) simp
    show ?thesis
    proof (cases "j = i")
      case True
      with \<open>i < length b \<and> \<not> num_le (b ! i) t\<close> show ?thesis by simp
    next
      case False
      with "1.prems" eq have "i + 1 \<le> j" "j < getOpenCPU_from b t (i + 1)"
        by simp_all
      with "1.IH" True show ?thesis by blast
    qed
  next
    case False
    then have "getOpenCPU_from b t i = (if i < length b then i else length b)"
      by (simp add: getOpenCPU_from.simps [of b t i])
    with "1.prems" show ?thesis
      by (auto split: if_splits)
  qed
qed

lemma getOpenCPU_le: "getOpenCPU b t \<le> length b"
  by (simp add: getOpenCPU_def getOpenCPU_from_le)

lemma getOpenCPU_open: "getOpenCPU b t < length b \<Longrightarrow> num_le (b ! getOpenCPU b t) t"
  by (simp add: getOpenCPU_def getOpenCPU_from_open)

lemma getOpenCPU_lowest: "j < getOpenCPU b t \<Longrightarrow> \<not> num_le (b ! j) t"
  using getOpenCPU_from_lowest [of 0 j b t] by (simp add: getOpenCPU_def)

lemma getOpenCPU_none: "getOpenCPU b t = length b \<Longrightarrow> x \<in> set b \<Longrightarrow> \<not> num_le x t"
  by (metis getOpenCPU_lowest in_set_conv_nth)

section \<open>The reconstruction and the overlap of the intervals\<close>

lemma later_than_le: "later_than t xs \<le> length xs"
  by (simp add: later_than_def)

lemma later_than_append [simp]: "later_than t (xs @ ys) = later_than t xs + later_than t ys"
  by (simp add: later_than_def)

lemma later_than_update:
  assumes "i < length xs" "\<not> num_lt t (xs ! i)"
  shows "later_than t (xs[i := v]) = later_than t xs + (if num_lt t v then 1 else 0)"
proof -
  have xs: "xs = take i xs @ xs ! i # drop (Suc i) xs"
    using assms(1) by (rule id_take_nth_drop)
  have upd: "xs[i := v] = take i xs @ v # drop (Suc i) xs"
    using assms(1) by (rule upd_conv_take_nth_drop)
  have "later_than t xs = later_than t (take i xs) + later_than t (drop (Suc i) xs)"
    using assms(2) by (subst xs) (simp add: later_than_def)
  moreover have "later_than t (xs[i := v]) =
      later_than t (take i xs) + (if num_lt t v then 1 else 0) + later_than t (drop (Suc i) xs)"
    by (subst upd) (simp add: later_than_def)
  ultimately show ?thesis by simp
qed

lemma later_than_track_cpu:
  assumes "num_le (startTime r) t"
  shows "later_than t (track_cpu b r) = later_than t b + (if num_lt t (endTime r) then 1 else 0)"
proof (cases "getOpenCPU b (startTime r) < length b")
  case True
  then have "num_le (b ! getOpenCPU b (startTime r)) t"
    using getOpenCPU_open assms num_le_trans by blast
  then have "\<not> num_lt t (b ! getOpenCPU b (startTime r))"
    by (rule num_le_not_lt)
  with True show ?thesis
    by (simp add: track_cpu_def array_store_def later_than_update)
next
  case False
  then show ?thesis
    by (simp add: track_cpu_def array_store_def later_than_def)
qed

lemma length_track_cpu:
  "length (track_cpu b r) = (if getOpenCPU b (startTime r) < length b then length b else Suc (length b))"
  by (simp add: track_cpu_def array_store_def)

lemma busyCpus_of_snoc: "busyCpus_of (rs @ [r]) = track_cpu (busyCpus_of rs) r"
  by (simp add: busyCpus_of_def)

lemma busyCpus_of_Nil: "busyCpus_of [] = []"
  by (simp add: busyCpus_of_def)

lemma sorted_by_start_snoc:
  "sorted_by_start (rs @ [r]) =
     (sorted_by_start rs \<and> (\<forall>x\<in>set rs. num_le (startTime x) (startTime r)))"
  by (auto simp: sorted_by_start_def sorted_wrt_append)

lemma set_track_cpu: "set (track_cpu b r) \<subseteq> insert (endTime r) (set b)"
  using set_update_subset_insert [of b] by (auto simp: track_cpu_def array_store_def)

lemma set_busyCpus_of: "set (busyCpus_of rs) \<subseteq> endTime ` set rs"
proof (induction rs rule: rev_induct)
  case Nil
  show ?case by (simp add: busyCpus_of_Nil)
next
  case (snoc r rs)
  then show ?case
    using set_track_cpu [of "busyCpus_of rs" r] by (auto simp: busyCpus_of_snoc)
qed

text \<open>The invariant of the loop: past the latest start, the CPUs still busy are the records
  still running.\<close>

lemma busy_invariant:
  assumes "sorted_by_start rs" "\<forall>x\<in>set rs. num_le (startTime x) t"
  shows "later_than t (busyCpus_of rs) = length (filter (\<lambda>x. num_lt t (endTime x)) rs)"
  using assms
proof (induction rs rule: rev_induct)
  case Nil
  show ?case by (simp add: busyCpus_of_Nil later_than_def)
next
  case (snoc r rs)
  then have "later_than t (busyCpus_of rs) = length (filter (\<lambda>x. num_lt t (endTime x)) rs)"
    by (simp add: sorted_by_start_snoc)
  moreover have "num_le (startTime r) t"
    using snoc.prems by simp
  ultimately show ?case
    by (simp add: busyCpus_of_snoc later_than_track_cpu)
qed

lemma overlap_at_snoc:
  "overlap_at t (rs @ [r]) =
     overlap_at t rs + (if num_le (startTime r) t \<and> num_lt t (endTime r) then 1 else 0)"
  by (simp add: overlap_at_def)

lemma overlap_at_started:
  assumes "\<forall>x\<in>set rs. num_le (startTime x) t"
  shows "overlap_at t rs = length (filter (\<lambda>x. num_lt t (endTime x)) rs)"
proof -
  have "filter (\<lambda>r. num_le (startTime r) t \<and> num_lt t (endTime r)) rs =
        filter (\<lambda>x. num_lt t (endTime x)) rs"
    using assms by (intro filter_cong) auto
  then show ?thesis by (simp add: overlap_at_def)
qed

lemma usedCpus_mono: "usedCpus rs \<le> usedCpus (rs @ [r])"
  by (simp add: usedCpus_def busyCpus_of_snoc length_track_cpu)

lemma overlap_le_usedCpus:
  assumes "sorted_by_start rs"
  shows "overlap_at t rs \<le> usedCpus rs"
  using assms
proof (induction rs rule: rev_induct)
  case Nil
  show ?case by (simp add: overlap_at_def)
next
  case (snoc r rs)
  then have sorted: "sorted_by_start rs" and before: "\<forall>x\<in>set rs. num_le (startTime x) (startTime r)"
    by (simp_all add: sorted_by_start_snoc)
  show ?case
  proof (cases "num_le (startTime r) t \<and> num_lt t (endTime r)")
    case True
    then have "\<forall>x\<in>set (rs @ [r]). num_le (startTime x) t"
      using before num_le_trans by auto
    then have "overlap_at t (rs @ [r]) = later_than t (busyCpus_of (rs @ [r]))"
      using busy_invariant [OF snoc.prems] overlap_at_started by simp
    then show ?thesis
      by (simp add: usedCpus_def later_than_le)
  next
    case False
    then have "overlap_at t (rs @ [r]) = overlap_at t rs"
      by (auto simp: overlap_at_snoc)
    also have "\<dots> \<le> usedCpus rs"
      using snoc.IH sorted by simp
    also have "\<dots> \<le> usedCpus (rs @ [r])"
      by (rule usedCpus_mono)
    finally show ?thesis .
  qed
qed

lemma usedCpus_attained:
  assumes "sorted_by_start rs" "\<forall>x\<in>set rs. num_lt (startTime x) (endTime x)" "rs \<noteq> []"
  shows "\<exists>x\<in>set rs. usedCpus rs \<le> overlap_at (startTime x) rs"
  using assms
proof (induction rs rule: rev_induct)
  case Nil
  then show ?case by simp
next
  case (snoc r rs)
  then have sorted: "sorted_by_start rs" and before: "\<forall>x\<in>set rs. num_le (startTime x) (startTime r)"
    and pos: "\<forall>x\<in>set rs. num_lt (startTime x) (endTime x)" and posr: "num_lt (startTime r) (endTime r)"
    by (simp_all add: sorted_by_start_snoc)
  let ?b = "busyCpus_of rs" and ?s = "startTime r"
  have sr: "?s \<noteq> NaN"
    using posr num_lt_not_NaN by blast
  show ?case
  proof (cases "getOpenCPU ?b ?s < length ?b")
    case True
    then have "rs \<noteq> []"
      by (auto simp: busyCpus_of_Nil)
    with snoc.IH sorted pos obtain x where x: "x \<in> set rs" "usedCpus rs \<le> overlap_at (startTime x) rs"
      by blast
    have "usedCpus (rs @ [r]) = usedCpus rs"
      using True by (simp add: usedCpus_def busyCpus_of_snoc length_track_cpu)
    moreover have "overlap_at (startTime x) rs \<le> overlap_at (startTime x) (rs @ [r])"
      by (simp add: overlap_at_snoc)
    ultimately show ?thesis
      using x by (intro bexI [of _ x]) auto
  next
    case False
    then have full: "getOpenCPU ?b ?s = length ?b"
      using getOpenCPU_le [of ?b ?s] by simp
    have "num_lt ?s y" if "y \<in> set ?b" for y
    proof -
      from that set_busyCpus_of [of rs] obtain x where x: "x \<in> set rs" "y = endTime x"
        by auto
      from pos x(1) have "num_lt (startTime x) (endTime x)"
        by simp
      then have "y \<noteq> NaN"
        using num_lt_not_NaN [of "startTime x" "endTime x"] x(2) by simp
      moreover have "\<not> num_le y ?s"
        using full that by (rule getOpenCPU_none)
      ultimately show ?thesis
        using sr not_num_le [of y ?s] by simp
    qed
    then have "filter (num_lt ?s) ?b = ?b"
      by (simp add: filter_id_conv)
    then have "later_than ?s ?b = length ?b"
      by (simp add: later_than_def)
    then have "overlap_at ?s rs = length ?b"
      using busy_invariant [OF sorted before] overlap_at_started [OF before] by simp
    moreover have "num_le ?s ?s"
      using sr by (rule num_le_refl)
    ultimately have "overlap_at ?s (rs @ [r]) = Suc (length ?b)"
      using posr by (simp add: overlap_at_snoc)
    moreover have "usedCpus (rs @ [r]) = Suc (length ?b)"
      using False by (simp add: usedCpus_def busyCpus_of_snoc length_track_cpu)
    ultimately show ?thesis
      by (intro bexI [of _ r]) auto
  qed
qed

lemma max_overlap_le_iff:
  "foldr (\<lambda>r m. max (f r) m) rs (0::nat) \<le> n \<longleftrightarrow> (\<forall>x\<in>set rs. f x \<le> n)"
  by (induction rs) auto

lemma max_overlap_ge:
  "x \<in> set rs \<Longrightarrow> f x \<le> foldr (\<lambda>r m. max (f r) m) rs (0::nat)"
  by (induction rs) auto

lemma usedCpus_eq_max_overlap:
  assumes "sorted_by_start rs" "\<forall>x\<in>set rs. num_lt (startTime x) (endTime x)"
  shows "usedCpus rs = max_overlap rs"
proof (cases "rs = []")
  case True
  then show ?thesis
    by (simp add: usedCpus_def busyCpus_of_Nil max_overlap_def)
next
  case False
  with assms obtain x where x: "x \<in> set rs" "usedCpus rs \<le> overlap_at (startTime x) rs"
    using usedCpus_attained by blast
  have "overlap_at (startTime x) rs \<le> max_overlap rs"
    unfolding max_overlap_def using x(1) by (rule max_overlap_ge)
  moreover have "max_overlap rs \<le> usedCpus rs"
    unfolding max_overlap_def max_overlap_le_iff using overlap_le_usedCpus [OF assms(1)] by blast
  ultimately show ?thesis
    using x(2) by simp
qed


lemma overlap_at_Cons:
  "overlap_at t (r # rs) =
     (if num_le (startTime r) t \<and> num_lt t (endTime r) then 1 else 0) + overlap_at t rs"
  by (simp add: overlap_at_def)

lemma non_overlapping_overlap_le_1: "non_overlapping rs \<Longrightarrow> overlap_at t rs \<le> 1"
proof (induction rs)
  case Nil
  show ?case by (simp add: overlap_at_def)
next
  case (Cons r rs)
  show ?case
  proof (cases "num_le (startTime r) t \<and> num_lt t (endTime r)")
    case True
    have "\<not> (num_le (startTime x) t \<and> num_lt t (endTime x))" if "x \<in> set rs" for x
    proof
      assume x: "num_le (startTime x) t \<and> num_lt t (endTime x)"
      have "num_lt (startTime r) (endTime x)"
        using True x num_le_lt_trans [of "startTime r" t "endTime x"] by simp
      moreover have "num_lt (startTime x) (endTime r)"
        using True x num_le_lt_trans [of "startTime x" t "endTime r"] by simp
      ultimately have "overlaps r x"
        by (simp add: overlaps_def)
      with Cons.prems that show False
        by (simp add: list_all_iff)
    qed
    then have "filter (\<lambda>x. num_le (startTime x) t \<and> num_lt t (endTime x)) rs = []"
      by (simp add: filter_empty_conv)
    then have "overlap_at t rs = 0"
      by (simp add: overlap_at_def)
    then show ?thesis
      by (simp add: overlap_at_Cons)
  next
    case False
    with Cons show ?thesis
      by (auto simp: overlap_at_Cons)
  qed
qed

lemma usedCpus_pos: "rs \<noteq> [] \<Longrightarrow> 1 \<le> usedCpus rs"
proof (cases rs rule: rev_cases)
  case Nil
  assume "rs \<noteq> []"
  with Nil show ?thesis by simp
next
  case (snoc ys y)
  then show ?thesis
    by (simp add: usedCpus_def busyCpus_of_snoc length_track_cpu)
qed

lemma usedCpus_le_length: "usedCpus rs \<le> length rs"
proof (induction rs rule: rev_induct)
  case Nil
  show ?case by (simp add: usedCpus_def busyCpus_of_Nil)
next
  case (snoc r rs)
  then show ?case
    by (simp add: usedCpus_def busyCpus_of_snoc length_track_cpu)
qed

lemma mutually_overlapping_last:
  "mutually_overlapping (rs @ [r]) \<Longrightarrow> x \<in> set rs \<Longrightarrow> overlaps x r"
  by (induction rs) (auto simp: list_all_iff)

lemma mutually_overlapping_all_busy:
  assumes "sorted_by_start rs" "\<forall>x\<in>set rs. num_lt (startTime x) (endTime x)"
    "mutually_overlapping rs"
  shows "usedCpus rs = length rs"
proof (cases rs rule: rev_cases)
  case Nil
  then show ?thesis by (simp add: usedCpus_def busyCpus_of_Nil)
next
  case (snoc ys y)
  have posy: "num_lt (startTime y) (endTime y)"
    using assms(2) snoc by simp
  then have "startTime y \<noteq> NaN"
    using num_lt_not_NaN [of "startTime y" "endTime y"] by simp
  then have "num_le (startTime y) (startTime y)"
    by (rule num_le_refl)
  moreover have "\<forall>x\<in>set ys. num_le (startTime x) (startTime y)"
    using assms(1) snoc by (simp add: sorted_by_start_snoc)
  ultimately have started: "\<forall>x\<in>set rs. num_le (startTime x) (startTime y)"
    using snoc by simp
  have "num_lt (startTime y) (endTime x)" if "x \<in> set rs" for x
  proof (cases "x \<in> set ys")
    case True
    then have "overlaps x y"
      using assms(3) snoc mutually_overlapping_last by blast
    then show ?thesis by (simp add: overlaps_def)
  next
    case False
    with that snoc posy show ?thesis by simp
  qed
  then have "filter (\<lambda>x. num_lt (startTime y) (endTime x)) rs = rs"
    by (simp add: filter_id_conv)
  then have "overlap_at (startTime y) rs = length rs"
    using overlap_at_started [OF started] by simp
  then have "length rs \<le> usedCpus rs"
    using overlap_le_usedCpus [OF assms(1), of "startTime y"] by simp
  then show ?thesis
    using usedCpus_le_length [of rs] by simp
qed

section \<open>The loop that gathers the records\<close>

lemma timestamps_Some:
  "timestamps sw = Some (s, e) \<longleftrightarrow>
     sw_startTime sw = Some s \<and> sw_endTime sw = Some e \<and> truthy s \<and> truthy e"
  by (auto simp: timestamps_def split: option.splits)

lemma eligible_timestamps:
  "eligible entry \<Longrightarrow> timestamps (stopwatch (snd entry)) = Some (start_of entry, end_of entry)"
  by (cases "timestamps (stopwatch (snd entry))")
    (auto simp: eligible_def start_of_def end_of_def timestamps_Some)

lemma eligible_truthy: "eligible entry \<Longrightarrow> truthy (start_of entry) \<and> truthy (end_of entry)"
  using eligible_timestamps [of entry] by (simp add: timestamps_Some)

lemma truthy_not_NaN: "truthy x \<Longrightarrow> x \<noteq> NaN"
  by (cases x) auto

lemma gather_step_skip: "\<not> eligible entry \<Longrightarrow> gather_step g entry = g"
  by (cases entry) (auto simp: gather_step_def eligible_def split: option.splits)

lemma gather_step_data:
  "eligible entry \<Longrightarrow> data (gather_step g entry) = data g @ [record_of entry]"
  using eligible_timestamps [of entry]
  by (cases entry)
    (auto simp: gather_step_def eligible_def record_of_def duration_of_def Let_def)

lemma gather_step_allStart:
  "eligible entry \<Longrightarrow>
   allStart (gather_step g entry) =
     (if num_lt (start_of entry) (allStart g) then start_of entry else allStart g)"
  using eligible_timestamps [of entry]
  by (cases entry) (auto simp: gather_step_def eligible_def Let_def)

lemma gather_step_allEnd:
  "eligible entry \<Longrightarrow>
   allEnd (gather_step g entry) =
     (if num_gt (end_of entry) (allEnd g) then end_of entry else allEnd g)"
  using eligible_timestamps [of entry]
  by (cases entry) (auto simp: gather_step_def eligible_def Let_def)

lemma gather_step_workDuration:
  "eligible entry \<Longrightarrow>
   workDuration (gather_step g entry) = num_add (workDuration g) (duration_of entry)"
  using eligible_timestamps [of entry]
  by (cases entry) (auto simp: gather_step_def eligible_def duration_of_def Let_def)

lemma gather_step_longestNameLength:
  "eligible entry \<Longrightarrow>
   longestNameLength (gather_step g entry) = max (longestNameLength g) (name_length entry)"
  using eligible_timestamps [of entry]
  by (cases entry) (auto simp: gather_step_def eligible_def name_length_def Let_def)

lemma gather_step_longestDurationLength:
  "eligible entry \<Longrightarrow>
   longestDurationLength (gather_step g entry) =
     max (longestDurationLength g) (length (toFixed1 (duration_of entry)))"
  using eligible_timestamps [of entry]
  by (cases entry) (auto simp: gather_step_def eligible_def duration_of_def Let_def)

lemma gather_step_durationByPhase:
  "eligible entry \<Longrightarrow>
   durationByPhase (gather_step g entry) =
     (case associatedPhase (fst entry) of
        None \<Rightarrow> durationByPhase g
      | Some ph \<Rightarrow>
          map_set ph
            (num_add
               (case map_of (durationByPhase g) ph of
                  None \<Rightarrow> Fin 0
                | Some v \<Rightarrow> if truthy v then v else Fin 0)
               (duration_of entry))
            (durationByPhase g))"
  using eligible_timestamps [of entry]
  by (cases entry)
    (auto simp: gather_step_def eligible_def duration_of_def Let_def split: option.splits)

lemma foldl_gather_filter:
  "foldl gather_step g entries = foldl gather_step g (filter eligible entries)"
  by (induction entries arbitrary: g) (simp_all add: gather_step_skip)

lemma gather_filter: "gather entries = gather (filter eligible entries)"
  by (simp add: gather_def foldl_gather_filter [of _ entries])

lemma foldl_gather_data:
  "data (foldl gather_step g entries) = data g @ map record_of (filter eligible entries)"
proof (induction entries arbitrary: g)
  case Nil
  show ?case by simp
next
  case (Cons entry entries)
  show ?case
  proof (cases "eligible entry")
    case True
    then show ?thesis
      by (simp add: Cons.IH gather_step_data)
  next
    case False
    then show ?thesis
      by (simp add: Cons.IH gather_step_skip)
  qed
qed

lemma gather_data: "data (gather entries) = map record_of (filter eligible entries)"
  by (simp add: gather_def foldl_gather_data gather_init_def)

lemma foldl_gather_workDuration:
  "workDuration (foldl gather_step g entries) =
     foldl num_add (workDuration g) (map duration_of (filter eligible entries))"
proof (induction entries arbitrary: g)
  case Nil
  show ?case by simp
next
  case (Cons entry entries)
  show ?case
    by (cases "eligible entry") (simp_all add: Cons.IH gather_step_workDuration gather_step_skip)
qed

lemma foldl_gather_longestNameLength:
  "longestNameLength (foldl gather_step g entries) =
     foldl max (longestNameLength g) (map name_length (filter eligible entries))"
proof (induction entries arbitrary: g)
  case Nil
  show ?case by simp
next
  case (Cons entry entries)
  show ?case
    by (cases "eligible entry")
      (simp_all add: Cons.IH gather_step_longestNameLength gather_step_skip)
qed

lemma foldl_gather_longestDurationLength:
  "longestDurationLength (foldl gather_step g entries) =
     foldl max (longestDurationLength g)
       (map (\<lambda>entry. length (toFixed1 (duration_of entry))) (filter eligible entries))"
proof (induction entries arbitrary: g)
  case Nil
  show ?case by simp
next
  case (Cons entry entries)
  show ?case
    by (cases "eligible entry")
      (simp_all add: Cons.IH gather_step_longestDurationLength gather_step_skip)
qed

text \<open>\<open>allStart\<close> is at most every start seen, \<open>allEnd\<close> at least every end seen.\<close>

lemma num_lt_total: "a \<noteq> NaN \<Longrightarrow> b \<noteq> NaN \<Longrightarrow> \<not> num_lt a b \<Longrightarrow> num_le b a"
  by (cases a; cases b) (auto simp: num_le_def)

lemma foldl_gather_allStart:
  assumes "allStart g \<noteq> NaN"
  shows "allStart (foldl gather_step g entries) \<noteq> NaN \<and>
         num_le (allStart (foldl gather_step g entries)) (allStart g) \<and>
         (\<forall>entry\<in>set (filter eligible entries).
            num_le (allStart (foldl gather_step g entries)) (start_of entry))"
  using assms
proof (induction entries arbitrary: g)
  case Nil
  then show ?case by (simp add: num_le_refl)
next
  case (Cons entry entries)
  show ?case
  proof (cases "eligible entry")
    case False
    with Cons show ?thesis
      by (simp add: gather_step_skip)
  next
    case True
    let ?g = "gather_step g entry"
    have s: "start_of entry \<noteq> NaN"
      using True eligible_truthy truthy_not_NaN by blast
    have g': "allStart ?g \<noteq> NaN" "num_le (allStart ?g) (allStart g)"
      "num_le (allStart ?g) (start_of entry)"
      using s Cons.prems True
      by (auto simp: gather_step_allStart num_le_refl num_lt_imp_le num_lt_total)
    from Cons.IH [OF g'(1)] have ih:
      "allStart (foldl gather_step ?g entries) \<noteq> NaN"
      "num_le (allStart (foldl gather_step ?g entries)) (allStart ?g)"
      "\<forall>e\<in>set (filter eligible entries).
         num_le (allStart (foldl gather_step ?g entries)) (start_of e)"
      by simp_all
    from ih(2) g'(2) have "num_le (allStart (foldl gather_step ?g entries)) (allStart g)"
      by (rule num_le_trans)
    moreover from ih(2) g'(3)
    have "num_le (allStart (foldl gather_step ?g entries)) (start_of entry)"
      by (rule num_le_trans)
    ultimately show ?thesis
      using ih True by simp
  qed
qed

lemma foldl_gather_allEnd:
  assumes "allEnd g \<noteq> NaN"
  shows "allEnd (foldl gather_step g entries) \<noteq> NaN \<and>
         num_le (allEnd g) (allEnd (foldl gather_step g entries)) \<and>
         (\<forall>entry\<in>set (filter eligible entries).
            num_le (end_of entry) (allEnd (foldl gather_step g entries)))"
  using assms
proof (induction entries arbitrary: g)
  case Nil
  then show ?case by (simp add: num_le_refl)
next
  case (Cons entry entries)
  show ?case
  proof (cases "eligible entry")
    case False
    with Cons show ?thesis
      by (simp add: gather_step_skip)
  next
    case True
    let ?g = "gather_step g entry"
    have s: "end_of entry \<noteq> NaN"
      using True eligible_truthy truthy_not_NaN by blast
    have g': "allEnd ?g \<noteq> NaN" "num_le (allEnd g) (allEnd ?g)"
      "num_le (end_of entry) (allEnd ?g)"
      using s Cons.prems True
      by (auto simp: gather_step_allEnd num_gt_def num_le_refl num_lt_imp_le num_lt_total)
    from Cons.IH [OF g'(1)] have ih:
      "allEnd (foldl gather_step ?g entries) \<noteq> NaN"
      "num_le (allEnd ?g) (allEnd (foldl gather_step ?g entries))"
      "\<forall>e\<in>set (filter eligible entries).
         num_le (end_of e) (allEnd (foldl gather_step ?g entries))"
      by simp_all
    from g'(2) ih(2) have "num_le (allEnd g) (allEnd (foldl gather_step ?g entries))"
      by (rule num_le_trans)
    moreover from g'(3) ih(2)
    have "num_le (end_of entry) (allEnd (foldl gather_step ?g entries))"
      by (rule num_le_trans)
    ultimately show ?thesis
      using ih True by simp
  qed
qed

lemma gather_allStart_le:
  assumes "entry \<in> set entries" "eligible entry"
  shows "num_le (allStart (gather entries)) (start_of entry)"
proof -
  have "allStart gather_init \<noteq> NaN"
    by (simp add: gather_init_def)
  from foldl_gather_allStart [OF this, of entries] show ?thesis
    using assms by (cases entry) (auto simp: gather_def)
qed

lemma gather_allEnd_ge:
  assumes "entry \<in> set entries" "eligible entry"
  shows "num_le (end_of entry) (allEnd (gather entries))"
proof -
  have "allEnd gather_init \<noteq> NaN"
    by (simp add: gather_init_def)
  from foldl_gather_allEnd [OF this, of entries] show ?thesis
    using assms by (cases entry) (auto simp: gather_def)
qed

section \<open>C1: the reconstruction finds the maximum overlap\<close>

text \<open>
  Claim C1, as amended. For every list of records that is sorted by ascending start time and
  whose records all have \<open>startTime < endTime\<close>, the reconstruction ends with a \<open>busyCpus\<close>
  whose length is the maximum number of intervals \<open>[startTime, endTime)\<close> that hold a common
  time: no time lies in more intervals, and the start of some record lies in that many. It is
  1 for a non-empty list of pairwise non-overlapping intervals, and \<open>N\<close> for \<open>N\<close> mutually
  overlapping ones. (The functions are total, so the reconstruction terminates.)
\<close>

theorem reconstruction_max_overlap:
  assumes "sorted_by_start rs" "list_all takes_time rs"
  shows "usedCpus rs = max_overlap rs \<and>
         (\<forall>t. overlap_at t rs \<le> usedCpus rs) \<and>
         (rs \<noteq> [] \<longrightarrow> (\<exists>r\<in>set rs. overlap_at (startTime r) rs = usedCpus rs)) \<and>
         (rs \<noteq> [] \<and> non_overlapping rs \<longrightarrow> usedCpus rs = 1) \<and>
         (mutually_overlapping rs \<longrightarrow> usedCpus rs = length rs)"
proof (intro conjI impI allI)
  have pos: "\<forall>r\<in>set rs. num_lt (startTime r) (endTime r)"
    using assms(2) by (simp add: list_all_iff takes_time_def)
  show "usedCpus rs = max_overlap rs"
    using assms(1) pos by (rule usedCpus_eq_max_overlap)
  show "overlap_at t rs \<le> usedCpus rs" for t
    using assms(1) by (rule overlap_le_usedCpus)
  show "\<exists>r\<in>set rs. overlap_at (startTime r) rs = usedCpus rs" if "rs \<noteq> []"
  proof -
    from assms(1) pos that obtain x
      where x: "x \<in> set rs" "usedCpus rs \<le> overlap_at (startTime x) rs"
      using usedCpus_attained [of rs] by auto
    then have "overlap_at (startTime x) rs = usedCpus rs"
      using overlap_le_usedCpus [OF assms(1), of "startTime x"] by simp
    with x(1) show ?thesis by (intro bexI [of _ x])
  qed
  show "usedCpus rs = 1" if "rs \<noteq> [] \<and> non_overlapping rs"
  proof -
    from assms(1) pos that obtain x
      where "x \<in> set rs" "usedCpus rs \<le> overlap_at (startTime x) rs"
      using usedCpus_attained [of rs] by auto
    moreover have "overlap_at (startTime x) rs \<le> 1"
      using that non_overlapping_overlap_le_1 [of rs] by simp
    moreover have "1 \<le> usedCpus rs"
      using that usedCpus_pos [of rs] by simp
    ultimately show ?thesis by simp
  qed
  show "usedCpus rs = length rs" if "mutually_overlapping rs"
    using assms(1) pos that by (rule mutually_overlapping_all_busy)
qed

theorem reconstruction_max_overlap_witness:
  "sorted_by_start staggered_records \<and> list_all takes_time staggered_records \<and>
   usedCpus staggered_records = 2 \<and> max_overlap staggered_records = 2 \<and>
   sorted_by_start sequential_records \<and> list_all takes_time sequential_records \<and>
   sequential_records \<noteq> [] \<and> non_overlapping sequential_records \<and>
   usedCpus sequential_records = 1 \<and>
   sorted_by_start nested_records \<and> list_all takes_time nested_records \<and>
   mutually_overlapping nested_records \<and> usedCpus nested_records = 3"
proof -
  have a: "sorted_by_start staggered_records" "list_all takes_time staggered_records"
    by code_simp+
  have b: "sorted_by_start sequential_records" "list_all takes_time sequential_records"
    "sequential_records \<noteq> []" "non_overlapping sequential_records"
    by code_simp+
  have c: "sorted_by_start nested_records" "list_all takes_time nested_records"
    "mutually_overlapping nested_records"
    by code_simp+
  have "max_overlap staggered_records = 2" "length nested_records = 3"
    by code_simp+
  then show ?thesis
    using a b c reconstruction_max_overlap [OF a] reconstruction_max_overlap [OF b(1,2)]
      reconstruction_max_overlap [OF c(1,2)]
    by simp
qed

text \<open>
  Claim C1 as it is stated, with \<open>startTime \<le> endTime\<close>, fails on a record of length zero
  that starts while another runs: the intervals \<open>[5, 8)\<close> and \<open>[5, 5)\<close> do not overlap and
  no time lies in both, yet the record of length zero finds no open CPU and takes a second
  one.
\<close>

theorem reconstruction_zero_length_counterexample:
  "sorted_by_start zero_length_records \<and> list_all well_timed zero_length_records \<and>
   non_overlapping zero_length_records \<and> max_overlap zero_length_records = 1 \<and>
   usedCpus zero_length_records = 2"
  by code_simp

section \<open>The chart of a row\<close>

lemma Math_floor_Fin: "Math_floor x = Fin q \<Longrightarrow> \<exists>k. q = of_int k"
  by (cases x) auto

lemma chart_idx_Fin: "chart_idx a d w t = Fin q \<Longrightarrow> \<exists>k. q = of_int k"
  unfolding chart_idx_def by (rule Math_floor_Fin)

lemma num_le_Fin_bounds: "num_le (Fin lo) x \<Longrightarrow> num_le x (Fin hi) \<Longrightarrow> \<exists>q. x = Fin q"
  by (cases x) (auto simp: num_le_def)

lemma ToIntegerOrInfinity_of_int [simp]: "ToIntegerOrInfinity (of_int k) = k"
  by (simp add: ToIntegerOrInfinity_def)

lemma concat_replicate_single: "concat (replicate n [c]) = replicate n c"
  by (induction n) simp_all

lemma str_repeat_dash:
  "0 \<le> k \<Longrightarrow> str_repeat ''-'' (Fin (of_int k)) = Inr (replicate (nat k) (CHR ''-''))"
  by (simp add: concat_replicate_single)

lemma str_repeat_int:
  "0 \<le> k \<Longrightarrow> str_repeat s (Fin (of_int k)) = Inr (concat (replicate (nat k) s))"
  by simp

lemma TIMELINE_CHART_SYMBOLS_single: "\<exists>c. TIMELINE_CHART_SYMBOLS st = [c]"
  by (cases st) simp_all

lemma length_repeat_symbol:
  "length (concat (replicate n (TIMELINE_CHART_SYMBOLS st))) = n"
proof -
  obtain c where "TIMELINE_CHART_SYMBOLS st = [c]"
    using TIMELINE_CHART_SYMBOLS_single by blast
  then show ?thesis
    by (simp add: length_concat sum_list_replicate)
qed

lemma TIMELINE_CHART_COLORIZER_Nil [simp]: "TIMELINE_CHART_COLORIZER st [] = []"
  by (cases st) (simp_all add: colorize_def)

lemma length_colorize [simp]: "length (colorize c s) = length s"
  by (simp add: colorize_def)

lemma length_TIMELINE_CHART_COLORIZER [simp]: "length (TIMELINE_CHART_COLORIZER st s) = length s"
  by (cases st) simp_all

lemma timeline_chart_in_range:
  assumes s: "chart_idx a d w (startTime r) = Fin (of_int s)"
    and e: "chart_idx a d w (endTime r) = Fin (of_int e)"
    and range: "0 \<le> s" "s \<le> e" "e \<le> w"
  shows "timeline_chart a d w r =
     Inr (colorize Gray (replicate (nat s) (CHR ''-'')) @
          TIMELINE_CHART_COLORIZER (status r)
            (concat (replicate (nat (e - s + 1)) (TIMELINE_CHART_SYMBOLS (status r)))) @
          colorize Gray (replicate (nat (w - e)) (CHR ''-'')))"
proof -
  have len: "num_add (num_sub (Fin (of_int e)) (Fin (of_int s))) (Fin 1) = Fin (of_int (e - s + 1))"
    by (simp add: num_sub_def)
  have trail: "num_sub (Fin (of_int w)) (Fin (of_int e)) = Fin (of_int (w - e))"
    by (simp add: num_sub_def)
  have "str_repeat ''-'' (Fin (of_int s)) = Inr (replicate (nat s) (CHR ''-''))"
    using range by (intro str_repeat_dash) simp
  moreover have "str_repeat (TIMELINE_CHART_SYMBOLS (status r)) (Fin (of_int (e - s + 1))) =
      Inr (concat (replicate (nat (e - s + 1)) (TIMELINE_CHART_SYMBOLS (status r))))"
    using range by (intro str_repeat_int) simp
  moreover have "str_repeat ''-'' (Fin (of_int (w - e))) = Inr (replicate (nat (w - e)) (CHR ''-''))"
    using range by (intro str_repeat_dash) simp
  ultimately show ?thesis
    unfolding timeline_chart_def Let_def s e len trail by simp
qed

text \<open>
  Claim C9. A row whose two columns satisfy \<open>0 \<le> startIdx \<le> endIdx \<le> chartWidth\<close> has a
  bar of \<open>startIdx\<close> filler glyphs, then \<open>endIdx - startIdx + 1\<close> status glyphs (at least
  one), then \<open>chartWidth - endIdx\<close> filler glyphs: \<open>chartWidth + 1\<close> glyphs in all, whatever the
  row.
\<close>

theorem chart_bar_width:
  assumes "num_le (Fin 0) (chart_idx a d w (startTime r))"
    and "num_le (chart_idx a d w (startTime r)) (chart_idx a d w (endTime r))"
    and "num_le (chart_idx a d w (endTime r)) (Fin (of_int w))"
  shows "\<exists>s e chart.
           chart_idx a d w (startTime r) = Fin (of_int s) \<and>
           chart_idx a d w (endTime r) = Fin (of_int e) \<and>
           timeline_chart a d w r = Inr chart \<and>
           chart =
             colorize Gray (replicate (nat s) (CHR ''-'')) @
             TIMELINE_CHART_COLORIZER (status r)
               (concat (replicate (nat (e - s + 1)) (TIMELINE_CHART_SYMBOLS (status r)))) @
             colorize Gray (replicate (nat (w - e)) (CHR ''-'')) \<and>
           length (concat (replicate (nat (e - s + 1)) (TIMELINE_CHART_SYMBOLS (status r)))) =
             nat (e - s + 1) \<and>
           1 \<le> nat (e - s + 1) \<and>
           length chart = nat (w + 1)"
proof -
  let ?si = "chart_idx a d w (startTime r)" and ?ei = "chart_idx a d w (endTime r)"
  have "num_le ?si (Fin (of_int w))"
    using assms(2,3) by (rule num_le_trans)
  with assms(1) obtain qs where qs: "?si = Fin qs"
    using num_le_Fin_bounds by blast
  have "num_le (Fin 0) ?ei"
    using assms(1,2) by (rule num_le_trans)
  with assms(3) obtain qe where qe: "?ei = Fin qe"
    using num_le_Fin_bounds by blast
  from qs obtain s where s: "qs = of_int s"
    using chart_idx_Fin by blast
  from qe obtain e where e: "qe = of_int e"
    using chart_idx_Fin by blast
  have range: "0 \<le> s" "s \<le> e" "e \<le> w"
    using assms qs qe s e by (auto simp: num_le_def)
  have chart: "timeline_chart a d w r =
     Inr (colorize Gray (replicate (nat s) (CHR ''-'')) @
          TIMELINE_CHART_COLORIZER (status r)
            (concat (replicate (nat (e - s + 1)) (TIMELINE_CHART_SYMBOLS (status r)))) @
          colorize Gray (replicate (nat (w - e)) (CHR ''-'')))"
    using qs qe s e range by (intro timeline_chart_in_range) simp_all
  have "nat s + nat (e - s + 1) + nat (w - e) = nat (w + 1)"
    using range by simp
  then show ?thesis
    using qs qe s e chart range by (simp add: length_repeat_symbol)
qed

theorem chart_bar_width_witness:
  "num_le (Fin 0) (chart_idx (Fin 1000) (Fin 6800) 20 (startTime (timeline_record 2000 5000))) \<and>
   num_le (chart_idx (Fin 1000) (Fin 6800) 20 (startTime (timeline_record 2000 5000)))
     (chart_idx (Fin 1000) (Fin 6800) 20 (endTime (timeline_record 2000 5000))) \<and>
   num_le (chart_idx (Fin 1000) (Fin 6800) 20 (endTime (timeline_record 2000 5000)))
     (Fin (of_int 20)) \<and>
   (\<exists>chart. timeline_chart (Fin 1000) (Fin 6800) 20 (timeline_record 2000 5000) = Inr chart \<and>
      length chart = 21)"
proof -
  have h: "num_le (Fin 0) (chart_idx (Fin 1000) (Fin 6800) 20 (startTime (timeline_record 2000 5000)))"
    "num_le (chart_idx (Fin 1000) (Fin 6800) 20 (startTime (timeline_record 2000 5000)))
       (chart_idx (Fin 1000) (Fin 6800) 20 (endTime (timeline_record 2000 5000)))"
    "num_le (chart_idx (Fin 1000) (Fin 6800) 20 (endTime (timeline_record 2000 5000)))
       (Fin (of_int 20))"
    by code_simp+
  from chart_bar_width [OF h] show ?thesis
    using h by auto
qed

section \<open>The symbols\<close>

lemma chars_colorize [simp]: "map snd (colorize c s) = s"
  by (simp add: colorize_def comp_def)

lemma chars_TIMELINE_CHART_COLORIZER [simp]: "map snd (TIMELINE_CHART_COLORIZER st s) = s"
  by (cases st) simp_all

lemma timeline_chart_chars:
  assumes "TIMELINE_CHART_SYMBOLS st = TIMELINE_CHART_SYMBOLS st'"
  shows "map_sum id (map snd) (timeline_chart a d w (r\<lparr>status := st\<rparr>)) =
         map_sum id (map snd) (timeline_chart a d w (r\<lparr>status := st'\<rparr>))"
  using assms by (simp add: timeline_chart_def Let_def split: sum.splits)

text \<open>
  Claim C10. Skipped, FromCache and NoOp share the symbol \<open>%\<close>, SuccessWithWarning and
  Failure share \<open>!\<close>: within a group the characters of a chart are the same whatever the
  record, and only the colour may tell two statuses apart (yellow against red for a warning
  and a failure, gray against green for NoOp and the two others; Skipped and FromCache have
  the same colour too).
\<close>

theorem chart_symbols_collapse:
  "TIMELINE_CHART_SYMBOLS Skipped = ''%'' \<and> TIMELINE_CHART_SYMBOLS FromCache = ''%'' \<and>
   TIMELINE_CHART_SYMBOLS NoOp = ''%'' \<and>
   TIMELINE_CHART_SYMBOLS SuccessWithWarning = ''!'' \<and> TIMELINE_CHART_SYMBOLS Failure = ''!'' \<and>
   map_sum id (map snd) (timeline_chart a d w (r\<lparr>status := Skipped\<rparr>)) =
     map_sum id (map snd) (timeline_chart a d w (r\<lparr>status := FromCache\<rparr>)) \<and>
   map_sum id (map snd) (timeline_chart a d w (r\<lparr>status := Skipped\<rparr>)) =
     map_sum id (map snd) (timeline_chart a d w (r\<lparr>status := NoOp\<rparr>)) \<and>
   map_sum id (map snd) (timeline_chart a d w (r\<lparr>status := SuccessWithWarning\<rparr>)) =
     map_sum id (map snd) (timeline_chart a d w (r\<lparr>status := Failure\<rparr>)) \<and>
   TIMELINE_CHART_COLORIZER SuccessWithWarning = colorize Yellow \<and>
   TIMELINE_CHART_COLORIZER Failure = colorize Red \<and>
   TIMELINE_CHART_COLORIZER Skipped = colorize Green \<and>
   TIMELINE_CHART_COLORIZER FromCache = colorize Green \<and>
   TIMELINE_CHART_COLORIZER NoOp = colorize Gray \<and>
   colorize Yellow ''!'' \<noteq> colorize Red ''!'' \<and> colorize Green ''%'' \<noteq> colorize Gray ''%''"
  by (simp add: timeline_chart_chars colorize_def)

section \<open>Degenerate inputs\<close>

lemma num_sub_eq_zero: "num_sub a b = Fin 0 \<Longrightarrow> \<exists>x. a = Fin x \<and> b = Fin x"
  by (cases a; cases b) (auto simp: num_sub_def)

lemma num_le_antisym: "num_le a b \<Longrightarrow> num_le b a \<Longrightarrow> a = b"
  by (cases a; cases b) (auto simp: num_le_def)

lemma data_gather_cases:
  assumes "r \<in> set (data (gather entries))"
  obtains entry where "entry \<in> set entries" "eligible entry" "r = record_of entry"
  using assms by (auto simp: gather_data)

lemma zero_duration_times:
  assumes "allDuration (gather entries) = Fin 0" "list_all well_timed (data (gather entries))"
    "r \<in> set (data (gather entries))"
  shows "\<exists>x. allStart (gather entries) = Fin x \<and> startTime r = Fin x \<and> endTime r = Fin x"
proof -
  let ?g = "gather entries"
  from assms(1) obtain x where x: "allEnd ?g = Fin x" "allStart ?g = Fin x"
    using num_sub_eq_zero [of "allEnd ?g" "allStart ?g"] by (auto simp: allDuration_def)
  from assms(3) obtain entry where entry: "entry \<in> set entries" "eligible entry" "r = record_of entry"
    by (rule data_gather_cases)
  have 1: "num_le (Fin x) (startTime r)"
    using gather_allStart_le [OF entry(1,2)] x entry(3) by (simp add: record_of_def)
  have 2: "num_le (startTime r) (endTime r)"
    using assms(2,3) by (simp add: list_all_iff well_timed_def)
  have 3: "num_le (endTime r) (Fin x)"
    using gather_allEnd_ge [OF entry(1,2)] x entry(3) by (simp add: record_of_def)
  have "num_le (startTime r) (Fin x)"
    using 2 3 by (rule num_le_trans)
  with 1 have s: "Fin x = startTime r"
    by (rule num_le_antisym)
  have "num_le (Fin x) (endTime r)"
    using 1 2 by (rule num_le_trans)
  with 3 have e: "endTime r = Fin x"
    by (rule num_le_antisym)
  show ?thesis
    using x(2) s [symmetric] e by (intro exI [of _ x]) simp
qed

text \<open>
  Claim C2. When \<open>allDuration\<close> is 0 (the records then all start and end at \<open>allStart\<close>), the
  division by \<open>allDuration\<close> raises no error: the column of either end of a record is the
  floor of \<open>0 / 0\<close>, which is \<open>NaN\<close>, and \<open>repeat\<close> reads a count of \<open>NaN\<close> as 0. So the chart
  of every row is rendered, with no glyph at all, and the row is the name and the duration
  around it.
\<close>

theorem zero_duration_chart:
  assumes "allDuration (gather entries) = Fin 0"
    and "list_all well_timed (data (gather entries))"
    and "r \<in> set (data (gather entries))"
  shows "chart_idx (allStart (gather entries)) (allDuration (gather entries))
           (chartWidth consoleWidth (gather entries)) (startTime r) = NaN \<and>
         chart_idx (allStart (gather entries)) (allDuration (gather entries))
           (chartWidth consoleWidth (gather entries)) (endTime r) = NaN \<and>
         timeline_chart (allStart (gather entries)) (allDuration (gather entries))
           (chartWidth consoleWidth (gather entries)) r = Inr [] \<and>
         (\<forall>n. name r = Some n \<longrightarrow>
            timeline_row (allStart (gather entries)) (allDuration (gather entries))
              (chartWidth consoleWidth (gather entries)) (longestNameLength (gather entries))
              (longestDurationLength (gather entries)) r =
            Inr (colorize Cyan (padStart (int (longestNameLength (gather entries))) n) @
                 plain ''  '' @
                 colorize White
                   (padStart (int (longestDurationLength (gather entries))) (durationString r) @
                    ''s'')))"
proof -
  from assms obtain x where x: "allStart (gather entries) = Fin x" "startTime r = Fin x"
    "endTime r = Fin x"
    using zero_duration_times by blast
  have idx: "chart_idx (Fin x) (Fin 0) w (Fin x) = NaN" for w
    by (simp add: chart_idx_def num_sub_def)
  have chart: "timeline_chart (allStart (gather entries)) (allDuration (gather entries))
      (chartWidth consoleWidth (gather entries)) r = Inr []"
    by (simp add: timeline_chart_def Let_def x assms(1) idx num_sub_def colorize_def)
  then show ?thesis
    by (simp add: timeline_row_def plain_def x assms(1) idx)
qed

theorem zero_duration_chart_witness:
  "allDuration (gather simultaneous_entries) = Fin 0 \<and>
   list_all well_timed (data (gather simultaneous_entries)) \<and>
   record_of (simultaneous_entries ! 0) \<in> set (data (gather simultaneous_entries)) \<and>
   name (record_of (simultaneous_entries ! 0)) = Some ''a'' \<and>
   timeline_chart (allStart (gather simultaneous_entries)) (allDuration (gather simultaneous_entries))
     (chartWidth None (gather simultaneous_entries)) (record_of (simultaneous_entries ! 0)) = Inr [] \<and>
   map_sum id (map snd)
     (timeline_row (allStart (gather simultaneous_entries)) (allDuration (gather simultaneous_entries))
        (chartWidth None (gather simultaneous_entries)) (longestNameLength (gather simultaneous_entries))
        (longestDurationLength (gather simultaneous_entries)) (record_of (simultaneous_entries ! 0))) =
   Inr ''a  0.0s''"
proof -
  have h: "allDuration (gather simultaneous_entries) = Fin 0"
    "list_all well_timed (data (gather simultaneous_entries))"
    "record_of (simultaneous_entries ! 0) \<in> set (data (gather simultaneous_entries))"
    by code_simp+
  have n: "name (record_of (simultaneous_entries ! 0)) = Some ''a''"
    by code_simp
  have t: "map_sum id (map snd)
     (timeline_row (allStart (gather simultaneous_entries)) (allDuration (gather simultaneous_entries))
        (chartWidth None (gather simultaneous_entries)) (longestNameLength (gather simultaneous_entries))
        (longestDurationLength (gather simultaneous_entries)) (record_of (simultaneous_entries ! 0))) =
   Inr ''a  0.0s''"
    by code_simp
  from zero_duration_chart [OF h, of None] show ?thesis
    using h n t by simp
qed

text \<open>
  Claim C3 fails on the code. On a terminal 40 columns wide, one operation with a name of
  41 characters makes \<open>chartWidth\<close> negative (-8); the end of the operation falls in column
  -8, the count of status glyphs is -7, and \<open>repeat\<close> throws a \<open>RangeError\<close>:
  \<open>_printTimeline\<close> fails.
\<close>

theorem narrow_terminal_RangeError:
  "chartWidth (Some 40) (gather narrow_entries) = - 8 \<and>
   chart_idx (allStart (gather narrow_entries)) (allDuration (gather narrow_entries)) (- 8)
     (Fin 7800) = Fin (- 8) \<and>
   str_repeat ''#'' (Fin (- 7)) = Inl RangeError \<and>
   printTimeline (Some 40) \<lparr>operationResults = narrow_entries\<rparr> = Inl RangeError"
  by code_simp

text \<open>
  Claim C6 fails on the code. With no eligible operation nothing is raised and no row is
  printed, the total work is 0, the parallelism used is 0 and 0.0; but \<open>allStart\<close> and \<open>allEnd\<close>
  keep their initial values, so the wall clock is \<open>-Infinity - Infinity\<close>, which is not finite,
  and the report says \<open>Wall Clock: -Infinitys\<close>.
\<close>

theorem no_eligible_wall_clock:
  "data (gather no_eligible_entries) = [] \<and>
   allDurationSeconds (gather no_eligible_entries) = NegInfinity \<and>
   map_sum id (map (map snd)) (printTimeline (Some 40) \<lparr>operationResults = no_eligible_entries\<rparr>) =
   Inr ['''',
        ''========================================'',
        ''========================================'',
        ''LEGEND:                 Total Work: 0.0s'',
        ''  [#] Success  [!] Failed/warnings  [%] Skipped/cached/no-opWall Clock: -Infinitys'',
        ''                 Max Parallelism Used: 0'',
        ''               Avg Parallelism Used: 0.0'',
        '''']"
  by code_simp

section \<open>C4: the operations that are gathered\<close>

lemma eligible_iff:
  "eligible entry \<longleftrightarrow>
     \<not> runner_silent (fst entry) \<and> has_timestamp (sw_startTime (stopwatch (snd entry))) \<and>
     has_timestamp (sw_endTime (stopwatch (snd entry)))"
  by (auto simp: eligible_def timestamps_def has_timestamp_def split: option.splits)

lemma foldl_max_ge: "(m::nat) \<le> foldl max m xs"
proof (induction xs arbitrary: m)
  case Nil
  show ?case by simp
next
  case (Cons x xs)
  have "m \<le> max m x" by simp
  also have "\<dots> \<le> foldl max (max m x) xs" by (rule Cons.IH)
  finally show ?case by simp
qed

lemma foldl_max_mem: "x \<in> set xs \<Longrightarrow> (x::nat) \<le> foldl max m xs"
proof (induction xs arbitrary: m)
  case Nil
  then show ?case by simp
next
  case (Cons y ys)
  show ?case
  proof (cases "x = y")
    case True
    have "x \<le> max m y" using True by simp
    also have "\<dots> \<le> foldl max (max m y) ys" by (rule foldl_max_ge)
    finally show ?thesis by simp
  next
    case False
    with Cons show ?thesis by simp
  qed
qed

lemma gather_longestNameLength:
  "longestNameLength (gather entries) = foldl max 0 (map name_length (filter eligible entries))"
  by (simp add: gather_def foldl_gather_longestNameLength gather_init_def)

lemma gather_longestDurationLength:
  "longestDurationLength (gather entries) =
     foldl max 0 (map (\<lambda>entry. length (toFixed1 (duration_of entry))) (filter eligible entries))"
  by (simp add: gather_def foldl_gather_longestDurationLength gather_init_def)

lemma gather_workDuration:
  "workDuration (gather entries) =
     foldl num_add (Fin 0) (map duration_of (filter eligible entries))"
  by (simp add: gather_def foldl_gather_workDuration gather_init_def)

text \<open>\<open>allStart\<close> and \<open>allEnd\<close> are timestamps of gathered operations, when there is one.\<close>

lemma foldl_gather_allStart_mem:
  "allStart (foldl gather_step g entries) = allStart g \<or>
   allStart (foldl gather_step g entries) \<in> start_of ` set (filter eligible entries)"
proof (induction entries arbitrary: g)
  case Nil
  show ?case by simp
next
  case (Cons entry entries)
  show ?case
  proof (cases "eligible entry")
    case False
    with Cons [of g] show ?thesis
      by (auto simp: gather_step_skip)
  next
    case True
    with Cons [of "gather_step g entry"] show ?thesis
      by (auto simp: gather_step_allStart split: if_splits)
  qed
qed

lemma foldl_gather_allEnd_mem:
  "allEnd (foldl gather_step g entries) = allEnd g \<or>
   allEnd (foldl gather_step g entries) \<in> end_of ` set (filter eligible entries)"
proof (induction entries arbitrary: g)
  case Nil
  show ?case by simp
next
  case (Cons entry entries)
  show ?case
  proof (cases "eligible entry")
    case False
    with Cons [of g] show ?thesis
      by (auto simp: gather_step_skip)
  next
    case True
    with Cons [of "gather_step g entry"] show ?thesis
      by (auto simp: gather_step_allEnd split: if_splits)
  qed
qed

lemma Infinity_le: "num_le Infinity x \<Longrightarrow> x = Infinity"
  by (cases x) (auto simp: num_le_def)

lemma le_NegInfinity: "num_le x NegInfinity \<Longrightarrow> x = NegInfinity"
  by (cases x) (auto simp: num_le_def)

lemma gather_allStart_mem:
  assumes "entry \<in> set entries" "eligible entry"
  shows "allStart (gather entries) \<in> start_of ` set (filter eligible entries)"
proof -
  from foldl_gather_allStart_mem [of gather_init entries]
  consider "allStart (gather entries) = Infinity"
    | "allStart (gather entries) \<in> start_of ` set (filter eligible entries)"
    by (auto simp: gather_def gather_init_def)
  then show ?thesis
  proof cases
    case 1
    then have "start_of entry = Infinity"
      using gather_allStart_le [OF assms] Infinity_le by simp
    moreover have "entry \<in> set (filter eligible entries)"
      using assms by simp
    then have "start_of entry \<in> start_of ` set (filter eligible entries)"
      by (rule imageI)
    ultimately show ?thesis
      using 1 by simp
  next
    case 2
    then show ?thesis .
  qed
qed

lemma gather_allEnd_mem:
  assumes "entry \<in> set entries" "eligible entry"
  shows "allEnd (gather entries) \<in> end_of ` set (filter eligible entries)"
proof -
  from foldl_gather_allEnd_mem [of gather_init entries]
  consider "allEnd (gather entries) = NegInfinity"
    | "allEnd (gather entries) \<in> end_of ` set (filter eligible entries)"
    by (auto simp: gather_def gather_init_def)
  then show ?thesis
  proof cases
    case 1
    then have "end_of entry = NegInfinity"
      using gather_allEnd_ge [OF assms] le_NegInfinity by simp
    moreover have "entry \<in> set (filter eligible entries)"
      using assms by simp
    then have "end_of entry \<in> end_of ` set (filter eligible entries)"
      by (rule imageI)
    ultimately show ?thesis
      using 1 by simp
  next
    case 2
    then show ?thesis .
  qed
qed

text \<open>
  Claim C4, as amended. The loop leaves out exactly the operations whose runner is silent or
  whose stopwatch lacks a truthy \<open>startTime\<close> or a truthy \<open>endTime\<close> (a timestamp counts as
  lacking when it is \<open>undefined\<close>, 0 or \<open>NaN\<close>): those change nothing. Every other operation
  adds one record to \<open>data\<close>, in the order of the map; \<open>longestNameLength\<close> and
  \<open>longestDurationLength\<close> are the largest lengths among them, \<open>allStart\<close> is the least of
  their start times and \<open>allEnd\<close> the greatest of their end times, and \<open>workDuration\<close> is the
  sum of their durations.
\<close>

theorem gather_eligible:
  "gather entries = gather (filter eligible entries) \<and>
   data (gather entries) = map record_of (filter eligible entries) \<and>
   longestNameLength (gather entries) =
     foldl max 0 (map name_length (filter eligible entries)) \<and>
   longestDurationLength (gather entries) =
     foldl max 0 (map (\<lambda>entry. length (toFixed1 (duration_of entry))) (filter eligible entries)) \<and>
   workDuration (gather entries) =
     foldl num_add (Fin 0) (map duration_of (filter eligible entries)) \<and>
   (\<forall>entry\<in>set entries.
      eligible entry =
        (\<not> runner_silent (fst entry) \<and> has_timestamp (sw_startTime (stopwatch (snd entry))) \<and>
         has_timestamp (sw_endTime (stopwatch (snd entry)))) \<and>
      (eligible entry \<longrightarrow>
         name_length entry \<le> longestNameLength (gather entries) \<and>
         length (durationString (record_of entry)) \<le> longestDurationLength (gather entries) \<and>
         num_le (allStart (gather entries)) (start_of entry) \<and>
         num_le (end_of entry) (allEnd (gather entries)) \<and>
         allStart (gather entries) \<in> start_of ` set (filter eligible entries) \<and>
         allEnd (gather entries) \<in> end_of ` set (filter eligible entries)))"
proof (intro conjI ballI impI)
  show "gather entries = gather (filter eligible entries)"
    by (rule gather_filter)
  show "data (gather entries) = map record_of (filter eligible entries)"
    by (rule gather_data)
  show "longestNameLength (gather entries) =
      foldl max 0 (map name_length (filter eligible entries))"
    by (rule gather_longestNameLength)
  show "longestDurationLength (gather entries) =
      foldl max 0 (map (\<lambda>entry. length (toFixed1 (duration_of entry))) (filter eligible entries))"
    by (rule gather_longestDurationLength)
  show "workDuration (gather entries) =
      foldl num_add (Fin 0) (map duration_of (filter eligible entries))"
    by (rule gather_workDuration)
next
  fix entry
  assume entry: "entry \<in> set entries"
  show "eligible entry =
      (\<not> runner_silent (fst entry) \<and> has_timestamp (sw_startTime (stopwatch (snd entry))) \<and>
       has_timestamp (sw_endTime (stopwatch (snd entry))))"
    by (rule eligible_iff)
  assume el: "eligible entry"
  show "name_length entry \<le> longestNameLength (gather entries)"
    unfolding gather_longestNameLength using entry el by (intro foldl_max_mem) simp
  show "length (durationString (record_of entry)) \<le> longestDurationLength (gather entries)"
    unfolding gather_longestDurationLength using entry el
    by (intro foldl_max_mem) (auto simp: record_of_def)
  show "num_le (allStart (gather entries)) (start_of entry)"
    using entry el by (rule gather_allStart_le)
  show "num_le (end_of entry) (allEnd (gather entries))"
    using entry el by (rule gather_allEnd_ge)
  show "allStart (gather entries) \<in> start_of ` set (filter eligible entries)"
    using entry el by (rule gather_allStart_mem)
  show "allEnd (gather entries) \<in> end_of ` set (filter eligible entries)"
    using entry el by (rule gather_allEnd_mem)
qed

theorem gather_eligible_witness:
  "map eligible mixed_entries = [True, False, True, False, True, True, False] \<and>
   map (\<lambda>r. (startTime r, endTime r, durationString r)) (data (gather mixed_entries)) =
     [(Fin 1000, Fin 4000, ''3.0''), (Fin 4000, Fin 11000, ''7.0''),
      (Fin 2000, Fin 5000, ''3.0''), (Fin 5000, Fin 5500, ''0.5'')] \<and>
   longestNameLength (gather mixed_entries) = 9 \<and>
   longestDurationLength (gather mixed_entries) = 3 \<and>
   allStart (gather mixed_entries) = Fin 1000 \<and> allEnd (gather mixed_entries) = Fin 11000 \<and>
   workDuration (gather mixed_entries) = Fin (27 / 2) \<and>
   num_le (allStart (gather mixed_entries)) (start_of (mixed_entries ! 4)) \<and>
   num_le (end_of (mixed_entries ! 4)) (allEnd (gather mixed_entries))"
proof -
  have m: "mixed_entries ! 4 \<in> set mixed_entries"
    by (simp add: mixed_entries_def)
  have e: "eligible (mixed_entries ! 4)"
    by code_simp
  have v: "map eligible mixed_entries = [True, False, True, False, True, True, False]"
    "map (\<lambda>r. (startTime r, endTime r, durationString r)) (data (gather mixed_entries)) =
     [(Fin 1000, Fin 4000, ''3.0''), (Fin 4000, Fin 11000, ''7.0''),
      (Fin 2000, Fin 5000, ''3.0''), (Fin 5000, Fin 5500, ''0.5'')]"
    "longestNameLength (gather mixed_entries) = 9"
    "longestDurationLength (gather mixed_entries) = 3"
    "allStart (gather mixed_entries) = Fin 1000" "allEnd (gather mixed_entries) = Fin 11000"
    "workDuration (gather mixed_entries) = Fin (27 / 2)"
    by code_simp+
  from gather_eligible [of mixed_entries] m e show ?thesis
    using v by blast
qed

text \<open>
  Claim C4 as it is stated fails on an operation that has started and not ended: its runner
  is not silent and its stopwatch has one of the two timestamps, yet the loop leaves it out.
\<close>

theorem gather_started_only_counterexample:
  "\<not> left_out_as_claimed (named_operation ''running'', started_only) \<and>
   data (gather [(named_operation ''running'', started_only)]) = [] \<and>
   gather [(named_operation ''running'', started_only)] = gather []"
  by code_simp

section \<open>C8: the durations by phase\<close>

lemma is_finite_iff: "is_finite x \<longleftrightarrow> (\<exists>q. x = Fin q)"
  by (cases x) (simp_all add: is_finite_def)

lemma value_of_Fin [simp]: "value_of (Fin q) = q"
  by (simp add: value_of_def)

lemma foldl_num_add_finite:
  "list_all is_finite xs \<Longrightarrow> foldl num_add (Fin a) xs = Fin (a + sum_list (map value_of xs))"
proof (induction xs arbitrary: a)
  case Nil
  show ?case by simp
next
  case (Cons x xs)
  then obtain q where "x = Fin q"
    by (auto simp: is_finite_iff)
  with Cons show ?case
    by (simp add: add.assoc)
qed

lemma duration_of_finite:
  assumes "eligible entry" "start_of entry = Fin a" "end_of entry = Fin b"
  shows "duration_of entry = Fin ((b - a) / 1000)"
proof -
  from assms(1) have "timestamps (stopwatch (snd entry)) = Some (start_of entry, end_of entry)"
    by (rule eligible_timestamps)
  then have "sw_startTime (stopwatch (snd entry)) = Some (Fin a)"
    "sw_endTime (stopwatch (snd entry)) = Some (Fin b)"
    using assms(2,3) by (simp_all add: timestamps_Some)
  then show ?thesis
    by (simp add: duration_of_def duration_def num_sub_def)
qed

lemma duration_of_is_finite: "eligible entry \<Longrightarrow> finite_times entry \<Longrightarrow> is_finite (duration_of entry)"
  using duration_of_finite [of entry] by (auto simp: finite_times_def is_finite_iff)

lemma phase_total_finite:
  assumes "list_all finite_times (filter eligible entries)"
  shows "is_finite (phase_total ph entries)"
proof -
  have "list_all is_finite (map duration_of (filter (in_phase ph) (filter eligible entries)))"
    using assms by (auto simp: list_all_iff duration_of_is_finite)
  then show ?thesis
    unfolding phase_total_def by (simp add: foldl_num_add_finite is_finite_def)
qed

lemma map_of_map_set: "map_of (map_set k v m) = (map_of m)(k \<mapsto> v)"
  by (induction m) (auto simp: fun_eq_iff)

lemma keys_map_set: "set (map fst (map_set k v m)) = insert k (set (map fst m))"
proof -
  have "fst ` set (map_set k v m) = dom (map_of (map_set k v m))"
    by (simp add: dom_map_of_conv_image_fst)
  also have "\<dots> = insert k (dom (map_of m))"
    by (simp add: map_of_map_set)
  also have "\<dots> = insert k (fst ` set m)"
    by (simp add: dom_map_of_conv_image_fst)
  finally show ?thesis by simp
qed

lemma has_phase_iff: "has_phase entry \<longleftrightarrow> (\<exists>ph. in_phase ph entry)"
  by (simp add: has_phase_def in_phase_def)

lemma distinct_map_set: "distinct (map fst m) \<Longrightarrow> distinct (map fst (map_set k v m))"
proof (induction m)
  case Nil
  show ?case by simp
next
  case (Cons kv m)
  obtain k' v' where kv: "kv = (k', v')"
    by (cases kv)
  show ?case
  proof (cases "k' = k")
    case True
    with Cons kv show ?thesis by simp
  next
    case False
    with Cons kv keys_map_set [of k v m] show ?thesis by auto
  qed
qed

lemma gather_snoc: "gather (entries @ [entry]) = gather_step (gather entries) entry"
  by (simp add: gather_def)

lemma phase_total_snoc:
  "phase_total ph (entries @ [entry]) =
     (if eligible entry \<and> in_phase ph entry then num_add (phase_total ph entries) (duration_of entry)
      else phase_total ph entries)"
  by (simp add: phase_total_def)

lemma durationByPhase_snoc:
  "durationByPhase (gather (entries @ [entry])) =
     (if eligible entry then
        (case associatedPhase (fst entry) of
           None \<Rightarrow> durationByPhase (gather entries)
         | Some ph \<Rightarrow>
             map_set ph
               (num_add
                  (case map_of (durationByPhase (gather entries)) ph of
                     None \<Rightarrow> Fin 0
                   | Some v \<Rightarrow> if truthy v then v else Fin 0)
                  (duration_of entry))
               (durationByPhase (gather entries)))
      else durationByPhase (gather entries))"
  by (simp add: gather_snoc gather_step_durationByPhase gather_step_skip)

lemma finite_or_zero: "is_finite v \<Longrightarrow> (if truthy v then v else Fin 0) = v"
  by (cases v) (auto simp: is_finite_def)

lemma durationByPhase_sums:
  assumes "list_all finite_times (filter eligible entries)"
  shows "map_of (durationByPhase (gather entries)) ph =
     (if list_ex (in_phase ph) (filter eligible entries) then Some (phase_total ph entries)
      else None)"
  using assms
proof (induction entries rule: rev_induct)
  case Nil
  show ?case by (simp add: gather_def gather_init_def)
next
  case (snoc entry entries)
  then have fin: "list_all finite_times (filter eligible entries)"
    by simp
  note ih = snoc.IH [OF fin]
  show ?case
  proof (cases "eligible entry \<and> in_phase ph entry")
    case False
    then have "map_of (durationByPhase (gather (entries @ [entry]))) ph =
        map_of (durationByPhase (gather entries)) ph"
      by (auto simp: durationByPhase_snoc map_of_map_set in_phase_def split: option.splits)
    with False ih show ?thesis
      by (auto simp: phase_total_snoc)
  next
    case True
    then have ph: "associatedPhase (fst entry) = Some ph"
      by (simp add: in_phase_def)
    have prev: "(case map_of (durationByPhase (gather entries)) ph of
                   None \<Rightarrow> Fin 0
                 | Some v \<Rightarrow> if truthy v then v else Fin 0) = phase_total ph entries"
    proof (cases "list_ex (in_phase ph) (filter eligible entries)")
      case True
      with ih show ?thesis
        by (simp add: finite_or_zero phase_total_finite [OF fin])
    next
      case False
      then have "filter (in_phase ph) (filter eligible entries) = []"
        by (auto simp: list_ex_iff filter_empty_conv)
      then have "phase_total ph entries = Fin 0"
        by (simp add: phase_total_def)
      with False ih show ?thesis by simp
    qed
    have "map_of (durationByPhase (gather (entries @ [entry]))) ph =
        Some (num_add (phase_total ph entries) (duration_of entry))"
      using True ph prev by (simp add: durationByPhase_snoc map_of_map_set)
    with True show ?thesis
      by (simp add: phase_total_snoc)
  qed
qed

lemma durationByPhase_keys:
  "set (map fst (durationByPhase (gather entries))) =
     {ph. list_ex (in_phase ph) (filter eligible entries)}"
proof (induction entries rule: rev_induct)
  case Nil
  show ?case by (simp add: gather_def gather_init_def)
next
  case (snoc entry entries)
  show ?case
  proof (cases "eligible entry")
    case False
    with snoc show ?thesis
      by (simp add: durationByPhase_snoc)
  next
    case True
    show ?thesis
    proof (cases "associatedPhase (fst entry)")
      case None
      with True snoc show ?thesis
        by (auto simp: durationByPhase_snoc in_phase_def)
    next
      case (Some ph')
      with True snoc show ?thesis
        by (auto simp: durationByPhase_snoc keys_map_set in_phase_def simp del: set_map)
    qed
  qed
qed

lemma durationByPhase_distinct: "distinct (map fst (durationByPhase (gather entries)))"
proof (induction entries rule: rev_induct)
  case Nil
  show ?case by (simp add: gather_def gather_init_def)
next
  case (snoc entry entries)
  then show ?case
    by (auto simp: durationByPhase_snoc distinct_map_set split: option.splits)
qed

lemma durationByPhase_empty:
  "durationByPhase (gather entries) = [] \<longleftrightarrow> \<not> list_ex has_phase (filter eligible entries)"
proof -
  have "durationByPhase (gather entries) = [] \<longleftrightarrow>
      set (map fst (durationByPhase (gather entries))) = {}"
    by simp
  also have "\<dots> \<longleftrightarrow> (\<forall>ph. \<not> list_ex (in_phase ph) (filter eligible entries))"
    unfolding durationByPhase_keys by auto
  also have "\<dots> \<longleftrightarrow> \<not> list_ex has_phase (filter eligible entries)"
    unfolding list_ex_iff has_phase_iff by blast
  finally show ?thesis .
qed

lemma phase_lines_Nil: "phase_lines m = [] \<longleftrightarrow> m = []"
  by (simp add: phase_lines_def)

lemma printTimeline_phase_lines:
  assumes "printTimeline consoleWidth \<lparr>operationResults = entries\<rparr> = Inr lines"
  shows "\<exists>before. lines = before @ phase_lines (durationByPhase (gather entries)) @ [plain '''']"
  using assms unfolding printTimeline_def Let_def
  by (auto split: sum.splits prod.splits)

text \<open>
  Claim C8. For timestamps that are finite numbers, the map holds for each phase the sum of
  the durations of the eligible operations whose \<open>associatedPhase\<close> is that phase, added in the
  order of the result map, and nothing for a phase without such an operation; operations
  without a phase add to no entry. The map has one entry for each phase that occurs, and the
  section (the line \<open>BY PHASE:\<close> and one line for each entry, written before the last, empty
  line of the report) is printed if and only if an eligible operation has a phase.
\<close>

theorem durationByPhase_grouping:
  "(list_all finite_times (filter eligible entries) \<longrightarrow>
     (\<forall>ph. map_of (durationByPhase (gather entries)) ph =
        (if list_ex (in_phase ph) (filter eligible entries) then Some (phase_total ph entries)
         else None))) \<and>
   set (map fst (durationByPhase (gather entries))) =
     {ph. list_ex (in_phase ph) (filter eligible entries)} \<and>
   distinct (map fst (durationByPhase (gather entries))) \<and>
   (phase_lines (durationByPhase (gather entries)) \<noteq> [] \<longleftrightarrow>
      list_ex has_phase (filter eligible entries)) \<and>
   (phase_lines (durationByPhase (gather entries)) \<noteq> [] \<longrightarrow>
      hd (phase_lines (durationByPhase (gather entries))) = plain ''BY PHASE:'' \<and>
      length (phase_lines (durationByPhase (gather entries))) =
        Suc (length (durationByPhase (gather entries)))) \<and>
   (\<forall>lines. printTimeline consoleWidth \<lparr>operationResults = entries\<rparr> = Inr lines \<longrightarrow>
      (\<exists>before. lines = before @ phase_lines (durationByPhase (gather entries)) @ [plain '''']))"
proof (intro conjI impI allI)
  show "map_of (durationByPhase (gather entries)) ph =
      (if list_ex (in_phase ph) (filter eligible entries) then Some (phase_total ph entries)
       else None)"
    if "list_all finite_times (filter eligible entries)" for ph
    using that by (rule durationByPhase_sums)
  show "set (map fst (durationByPhase (gather entries))) =
      {ph. list_ex (in_phase ph) (filter eligible entries)}"
    by (rule durationByPhase_keys)
  show "distinct (map fst (durationByPhase (gather entries)))"
    by (rule durationByPhase_distinct)
  show "(phase_lines (durationByPhase (gather entries)) \<noteq> []) =
      list_ex has_phase (filter eligible entries)"
    by (simp add: phase_lines_Nil durationByPhase_empty)
  show "hd (phase_lines (durationByPhase (gather entries))) = plain ''BY PHASE:''"
    if "phase_lines (durationByPhase (gather entries)) \<noteq> []"
    using that by (simp add: phase_lines_def split: if_splits)
  show "length (phase_lines (durationByPhase (gather entries))) =
      Suc (length (durationByPhase (gather entries)))"
    if "phase_lines (durationByPhase (gather entries)) \<noteq> []"
    using that by (simp add: phase_lines_def split: if_splits)
  show "\<exists>before. lines = before @ phase_lines (durationByPhase (gather entries)) @ [plain '''']"
    if "printTimeline consoleWidth \<lparr>operationResults = entries\<rparr> = Inr lines" for lines
    using that by (rule printTimeline_phase_lines)
qed

theorem durationByPhase_grouping_witness:
  "list_all finite_times (filter eligible mixed_entries) \<and>
   durationByPhase (gather mixed_entries) = [(build_phase, Fin (7 / 2)), (test_phase, Fin 7)] \<and>
   phase_total build_phase mixed_entries = Fin (7 / 2) \<and>
   phase_total test_phase mixed_entries = Fin 7 \<and>
   list_ex has_phase (filter eligible mixed_entries) \<and>
   map (map snd) (phase_lines (durationByPhase (gather mixed_entries))) =
     [''BY PHASE:'', ''      _phase:build 3.5s'', ''       _phase:test 7.0s''] \<and>
   (\<exists>lines before.
      printTimeline None \<lparr>operationResults = mixed_entries\<rparr> = Inr lines \<and>
      lines = before @ phase_lines (durationByPhase (gather mixed_entries)) @ [plain ''''])"
proof -
  have f: "list_all finite_times (filter eligible mixed_entries)"
    by code_simp
  have v: "durationByPhase (gather mixed_entries) = [(build_phase, Fin (7 / 2)), (test_phase, Fin 7)]"
    "phase_total build_phase mixed_entries = Fin (7 / 2)"
    "phase_total test_phase mixed_entries = Fin 7"
    "list_ex has_phase (filter eligible mixed_entries)"
    "map (map snd) (phase_lines (durationByPhase (gather mixed_entries))) =
     [''BY PHASE:'', ''      _phase:build 3.5s'', ''       _phase:test 7.0s'']"
    by code_simp+
  have "isl (printTimeline None \<lparr>operationResults = mixed_entries\<rparr>) = False"
    by code_simp
  then obtain lines where p: "printTimeline None \<lparr>operationResults = mixed_entries\<rparr> = Inr lines"
    by (cases "printTimeline None \<lparr>operationResults = mixed_entries\<rparr>") auto
  from durationByPhase_grouping [of mixed_entries None] f p show ?thesis
    using v by blast
qed

section \<open>The sort and the loop over the sorted records\<close>

lemma mset_insert_record: "mset (insert_record r xs) = add_mset r (mset xs)"
  by (induction xs) simp_all

lemma mset_sort_data: "mset (sort_data rs) = mset rs"
  by (induction rs) (simp_all add: sort_data_def mset_insert_record)

lemma set_sort_data: "set (sort_data rs) = set rs"
  using mset_sort_data [of rs] by (metis set_mset_mset)

lemma compareFn_finite:
  "startTime a = Fin x \<Longrightarrow> startTime b = Fin y \<Longrightarrow>
   num_gt (compareFn a b) (Fin 0) \<longleftrightarrow> y < x"
  by (simp add: compareFn_def num_sub_def num_gt_def)

lemma set_insert_record: "set (insert_record r xs) = insert r (set xs)"
  using mset_insert_record [of r xs] by (metis set_mset_add_mset_insert set_mset_mset)

lemma sorted_insert_record:
  assumes "sorted_by_start xs" "is_finite (startTime r)" "\<forall>x\<in>set xs. is_finite (startTime x)"
  shows "sorted_by_start (insert_record r xs)"
  using assms
proof (induction xs)
  case Nil
  show ?case by (simp add: sorted_by_start_def)
next
  case (Cons x xs)
  from Cons.prems obtain a b where ab: "startTime r = Fin a" "startTime x = Fin b"
    by (auto simp: is_finite_iff)
  show ?case
  proof (cases "b < a")
    case True
    then have ins: "insert_record r (x # xs) = x # insert_record r xs"
      using ab by (simp add: compareFn_finite)
    have "sorted_by_start (insert_record r xs)"
      using Cons by (simp add: sorted_by_start_def)
    moreover have "\<forall>y\<in>set (insert_record r xs). num_le (startTime x) (startTime y)"
      using Cons.prems(1) True ab
      by (auto simp: set_insert_record sorted_by_start_def num_le_def)
    ultimately show ?thesis
      unfolding ins sorted_by_start_def by simp
  next
    case False
    then have ins: "insert_record r (x # xs) = r # x # xs"
      using ab by (simp add: compareFn_finite)
    have rx: "num_le (startTime r) (startTime x)"
      using False ab by (auto simp: num_le_def)
    have "\<forall>y\<in>set xs. num_le (startTime r) (startTime y)"
      using Cons.prems(1) rx num_le_trans by (auto simp: sorted_by_start_def)
    with rx Cons.prems(1) show ?thesis
      unfolding ins sorted_by_start_def by simp
  qed
qed

lemma sorted_sort_data:
  "\<forall>x\<in>set rs. is_finite (startTime x) \<Longrightarrow> sorted_by_start (sort_data rs)"
proof (induction rs)
  case Nil
  show ?case by (simp add: sort_data_def sorted_by_start_def)
next
  case (Cons r rs)
  then have "sorted_by_start (sort_data rs)"
    by simp
  moreover have "\<forall>x\<in>set (sort_data rs). is_finite (startTime x)"
    using Cons.prems by (simp add: set_sort_data)
  ultimately have "sorted_by_start (insert_record r (sort_data rs))"
    using Cons.prems by (intro sorted_insert_record) simp_all
  then show ?case
    by (simp add: sort_data_def)
qed

lemma timeline_loop_busyCpus:
  "timeline_loop a d w nl dl busy out rs = Inr (busy', out') \<Longrightarrow> busy' = foldl track_cpu busy rs"
  by (induction rs arbitrary: busy out) (auto split: sum.splits)

text \<open>The number the report prints as the parallelism used is \<open>usedCpus\<close> of the sorted records.\<close>

lemma timeline_loop_usedCpus:
  "timeline_loop a d w nl dl [] out rs = Inr (busy', out') \<Longrightarrow> length busy' = usedCpus rs"
  using timeline_loop_busyCpus [of a d w nl dl "[]" out rs busy' out']
  by (simp add: usedCpus_def busyCpus_of_def)

section \<open>C5: the average parallelism\<close>

text \<open>
  Claim C5 fails on the code. Two eligible operations of length zero at the same time are a
  non-empty filtered set with \<open>startTime \<le> endTime\<close> each; \<open>allDuration\<close> and \<open>workDuration\<close> are
  both 0 (every step is exact in doubles: \<open>5 - 5\<close>, \<open>0 / 1000\<close>, \<open>0 + 0\<close>), and the average is
  \<open>0 / 0\<close>, which is \<open>NaN\<close>: it is neither at least 0 nor at most the one CPU the reconstruction
  finds, and the report says \<open>Avg Parallelism Used: NaN\<close>.
\<close>

theorem average_parallelism_NaN:
  "filter eligible simultaneous_entries \<noteq> [] \<and>
   list_all well_timed (data (gather simultaneous_entries)) \<and>
   workDuration (gather simultaneous_entries) = Fin 0 \<and>
   allDurationSeconds (gather simultaneous_entries) = Fin 0 \<and>
   avgParallelism (gather simultaneous_entries) = NaN \<and>
   usedCpus (sort_data (data (gather simultaneous_entries))) = 1 \<and>
   \<not> num_le (Fin 0) (avgParallelism (gather simultaneous_entries)) \<and>
   \<not> num_le (avgParallelism (gather simultaneous_entries))
       (Fin (of_nat (usedCpus (sort_data (data (gather simultaneous_entries)))))) \<and>
   map_sum id (map (map snd))
     (printTimeline (Some 40) \<lparr>operationResults = simultaneous_entries\<rparr>) =
   Inr ['''',
        ''========================================'',
        ''a  0.0s'',
        ''b  0.0s'',
        ''========================================'',
        ''LEGEND:                 Total Work: 0.0s'',
        ''  [#] Success  [!] Failed/warnings  [%] Skipped/cached/no-opWall Clock: 0.0s'',
        ''                 Max Parallelism Used: 1'',
        ''               Avg Parallelism Used: NaN'',
        '''']"
  by code_simp

section \<open>C7: the waterfall\<close>

lemma registered_snoc:
  "registered (plugins @ [(n, f)]) = registered plugins @ [\<lparr>tap_name = n, tap_fn = f\<rparr>]"
  by (simp add: registered_def tapPromise_def)

lemma registered_names: "map tap_name (registered plugins) = map fst plugins"
proof (induction plugins rule: rev_induct)
  case Nil
  show ?case by (simp add: registered_def)
next
  case (snoc p plugins)
  then show ?case
    by (cases p) (simp add: registered_snoc)
qed

lemma registered_handlers: "map tap_fn (registered plugins) = map snd plugins"
proof (induction plugins rule: rev_induct)
  case Nil
  show ?case by (simp add: registered_def)
next
  case (snoc p plugins)
  then show ?case
    by (cases p) (simp add: registered_snoc)
qed

lemma waterfall_calls:
  assumes "waterfall taps operations context calls0 = (calls, Inr result)"
  shows "\<exists>new. calls = calls0 @ new \<and>
           map call_name new = map tap_name taps \<and>
           (\<forall>c\<in>set new. call_context c = context) \<and>
           (\<forall>i<length taps.
              tap_fn (taps ! i) (call_operations (new ! i)) context =
                Inr (if Suc i < length taps then call_operations (new ! Suc i) else result)) \<and>
           (taps \<noteq> [] \<longrightarrow> call_operations (new ! 0) = operations) \<and>
           (taps = [] \<longrightarrow> result = operations)"
  using assms
proof (induction taps arbitrary: operations calls0)
  case Nil
  then show ?case by simp
next
  case (Cons t taps)
  let ?c = "\<lparr>call_name = tap_name t, call_operations = operations, call_context = context\<rparr>"
  from Cons.prems obtain operations' where step: "tap_fn t operations context = Inr operations'"
    and rest: "waterfall taps operations' context (calls0 @ [?c]) = (calls, Inr result)"
    by (auto split: sum.splits)
  from Cons.IH [OF rest] obtain new where new: "calls = (calls0 @ [?c]) @ new"
    "map call_name new = map tap_name taps"
    "\<forall>c\<in>set new. call_context c = context"
    "\<forall>i<length taps.
       tap_fn (taps ! i) (call_operations (new ! i)) context =
         Inr (if Suc i < length taps then call_operations (new ! Suc i) else result)"
    "taps \<noteq> [] \<longrightarrow> call_operations (new ! 0) = operations'"
    "taps = [] \<longrightarrow> result = operations'"
    by blast
  have len: "length new = length taps"
    using new(2) by (metis length_map)
  have "tap_fn ((t # taps) ! i) (call_operations ((?c # new) ! i)) context =
      Inr (if Suc i < length (t # taps) then call_operations ((?c # new) ! Suc i) else result)"
    if "i < length (t # taps)" for i
  proof (cases i)
    case 0
    with step new(5,6) show ?thesis
      by (cases "taps = []") simp_all
  next
    case (Suc j)
    with that new(4) show ?thesis by simp
  qed
  then show ?case
    using new(1,2,3) by (intro exI [of _ "?c # new"]) simp
qed

text \<open>
  Claim C7, for the dispatch modelled from the spec. When no handler fails, the handlers are
  called once each in the order of their registration; the first receives the initial
  operation set, each next one the set the previous one returned, all with the context
  unchanged; and the result of the hook is what the last handler returned (the initial set
  when no handler is registered).
\<close>

theorem createOperations_waterfall:
  assumes "createOperations_promise (registered plugins) operations context = (calls, Inr result)"
  shows "map call_name calls = map fst plugins \<and>
         (\<forall>c\<in>set calls. call_context c = context) \<and>
         (\<forall>i<length plugins.
            snd (plugins ! i) (call_operations (calls ! i)) context =
              Inr (if Suc i < length plugins then call_operations (calls ! Suc i) else result)) \<and>
         (plugins \<noteq> [] \<longrightarrow> call_operations (calls ! 0) = operations) \<and>
         (plugins = [] \<longrightarrow> result = operations)"
proof -
  let ?taps = "registered plugins"
  have len: "length ?taps = length plugins"
    using registered_names [of plugins] by (metis length_map)
  have fn: "tap_fn (?taps ! i) = snd (plugins ! i)" if "i < length plugins" for i
    using that registered_handlers [of plugins] len by (metis nth_map)
  have nil: "?taps = [] \<longleftrightarrow> plugins = []"
    using len by (metis length_0_conv)
  from waterfall_calls [OF assms [unfolded createOperations_promise_def]]
  have "map call_name calls = map tap_name ?taps"
    "\<forall>c\<in>set calls. call_context c = context"
    "\<forall>i<length ?taps.
       tap_fn (?taps ! i) (call_operations (calls ! i)) context =
         Inr (if Suc i < length ?taps then call_operations (calls ! Suc i) else result)"
    "?taps \<noteq> [] \<longrightarrow> call_operations (calls ! 0) = operations"
    "?taps = [] \<longrightarrow> result = operations"
    by simp_all
  then show ?thesis
    by (simp add: registered_names len fn nil)
qed

theorem createOperations_waterfall_witness:
  "createOperations_promise (registered two_plugins) [0] True =
     ([\<lparr>call_name = ''first'', call_operations = [0], call_context = True\<rparr>,
       \<lparr>call_name = ''second'', call_operations = [0, 1], call_context = True\<rparr>],
      Inr [0, 1, 2]) \<and>
   map fst two_plugins = [''first'', ''second''] \<and>
   snd (two_plugins ! 1) [0, 1] True = Inr [0, 1, 2] \<and>
   createOperations_promise (registered ([] :: (string \<times> (nat list, bool, string) handler) list))
     [0] True = ([], Inr [0])"
proof -
  have none: "createOperations_promise
      (registered ([] :: (string \<times> (nat list, bool, string) handler) list)) [0] True =
      ([], Inr [0])"
    by (simp add: createOperations_promise_def registered_def)
  note createOperations_waterfall [OF none]
  have run: "createOperations_promise (registered two_plugins) [0] True =
     ([\<lparr>call_name = ''first'', call_operations = [0], call_context = True\<rparr>,
       \<lparr>call_name = ''second'', call_operations = [0, 1], call_context = True\<rparr>],
      Inr [0, 1, 2])"
    by (simp add: createOperations_promise_def registered_def tapPromise_def two_plugins_def
        adds_operation_def)
  note w = createOperations_waterfall [OF run]
  have l: "1 < length two_plugins" "\<not> Suc 1 < length two_plugins"
    by (simp_all add: two_plugins_def)
  from w have names: "map fst two_plugins = [''first'', ''second'']"
    by simp
  from w have "\<forall>i<length two_plugins.
      snd (two_plugins ! i)
        (call_operations
          ([\<lparr>call_name = ''first'', call_operations = [0], call_context = True\<rparr>,
            \<lparr>call_name = ''second'', call_operations = [0, 1], call_context = True\<rparr>] ! i))
        True =
      Inr (if Suc i < length two_plugins
           then call_operations
             ([\<lparr>call_name = ''first'', call_operations = [0], call_context = True\<rparr>,
               \<lparr>call_name = ''second'', call_operations = [0, 1], call_context = True\<rparr>] ! Suc i)
           else [0, 1, 2])"
    by blast
  from this [rule_format, OF l(1)] l(2)
  have "snd (two_plugins ! 1) [0, 1] True = Inr [0, 1, 2]"
    by simp
  with run names none show ?thesis by simp
qed

end
